theory Spec2Isabelle
  imports Complex_Main "HOL-Library.Monad_Syntax"
begin

section \<open>The bank transfer program (bank\_embedded\_task/main.c)\<close>

text \<open>
  The program keeps two global accounts, each with its own mutex. Two worker threads
  call \<open>transfer_funds\<close> in opposite directions; the main thread sleeps for the
  deadline and then sets the termination flag.

  The C type \<open>double\<close> of \<open>balance\<close> and \<open>transfer_amount\<close> is the type parameter
  \<open>'a\<close> of the model. The functions need only \<open><\<close>, \<open>+\<close> and \<open>-\<close> on it; a theorem
  that needs laws of exact arithmetic (a group, an order compatible with it) says so in
  the sort of \<open>'a\<close>. The type \<open>double\<close> defined below has the rounding of the C
  type; a theorem about the sum of the balances is stated on it. The counter is a C
  \<open>long\<close>, modelled as \<open>int\<close>: it starts at 0 and only counts up by one, signed
  overflow (undefined in C) is outside the model.
\<close>

subsection \<open>Data\<close>

text \<open>The worker threads \<open>t1\<close> (\<open>thread_transfer_1_to_2\<close>) and \<open>t2\<close>
  (\<open>thread_transfer_2_to_1\<close>) of \<open>main\<close>.\<close>

datatype thread = T1 | T2

text \<open>\<open>struct Account\<close>. The field \<open>mutex\<close> holds the owner of the
  \<open>pthread_mutex_t\<close>, \<open>None\<close> when it is unlocked; \<open>acct_id\<close> is the field \<open>id\<close>.\<close>

record 'a Account =
  balance :: 'a
  transfer_amount :: 'a
  successful_transfers :: int
  mutex :: "thread option"
  acct_id :: int

text \<open>One line of standard output written by \<open>transfer_funds\<close>: the five arguments
  of its \<open>printf\<close>, in order (the rendering with \<open>%.2f\<close> is not modelled).\<close>

datatype 'a line = SUCCESS int int 'a int 'a

text \<open>The global variables. \<open>termination_reason\<close> is the string in the buffer
  \<open>char termination_reason[100]\<close>; where the threads run step by step it is the bytes
  of the buffer, the zero bytes included, up to the last byte written.\<close>

record 'a globals =
  is_terminated :: int
  termination_reason :: string
  account1 :: "'a Account"
  account2 :: "'a Account"
  stdout :: "'a line list"

text \<open>Pointers to the two global accounts (\<open>&account1\<close>, \<open>&account2\<close>) and to
  their mutexes (\<open>&p->mutex\<close>).\<close>

datatype acct_ptr = Acc1 | Acc2

datatype mutex_ptr = MutexOf acct_ptr

fun deref :: "acct_ptr \<Rightarrow> 'a globals \<Rightarrow> 'a Account" where
  "deref Acc1 g = account1 g"
| "deref Acc2 g = account2 g"

fun store :: "acct_ptr \<Rightarrow> 'a Account \<Rightarrow> 'a globals \<Rightarrow> 'a globals" where
  "store Acc1 a g = g\<lparr>account1 := a\<rparr>"
| "store Acc2 a g = g\<lparr>account2 := a\<rparr>"

subsection \<open>Formatting\<close>

text \<open>\<open>%d\<close> of \<open>printf\<close>: the decimal digits of an integer.\<close>

fun decimal :: "nat \<Rightarrow> string" where
  "decimal n =
     (if n < 10 then [''0123456789'' ! n]
      else decimal (n div 10) @ [''0123456789'' ! (n mod 10)])"

declare decimal.simps [simp del]

definition format_d :: "int \<Rightarrow> string" where
  "format_d i = (if i < 0 then CHR ''-'' # decimal (nat (- i)) else decimal (nat i))"

text \<open>A format string with one \<open>%d\<close> directive, filled with the integer.\<close>

fun format_string :: "string \<Rightarrow> int \<Rightarrow> string" where
  "format_string [] i = []"
| "format_string (c # cs) i =
     (if c = CHR ''%'' \<and> take 1 cs = ''d'' then format_d i @ drop 1 cs
      else c # format_string cs i)"

text \<open>\<open>snprintf(buf, n, fmt, i)\<close> keeps at most \<open>n - 1\<close> characters of the text.\<close>

definition snprintf :: "nat \<Rightarrow> string \<Rightarrow> int \<Rightarrow> string" where
  "snprintf n fmt i = take (n - 1) (format_string fmt i)"

subsection \<open>Mutexes\<close>

text \<open>
  \<open>pthread_mutex_lock\<close> called by thread \<open>t\<close>: it returns with the mutex owned by
  \<open>t\<close> when the mutex is free. \<open>None\<close> means that the call does not return in this
  state: the mutex is held and the caller waits.
\<close>

fun pthread_mutex_lock :: "thread \<Rightarrow> mutex_ptr \<Rightarrow> 'a globals \<Rightarrow> 'a globals option" where
  "pthread_mutex_lock t (MutexOf p) g =
     (case mutex (deref p g) of
        None \<Rightarrow> Some (store p ((deref p g)\<lparr>mutex := Some t\<rparr>) g)
      | Some _ \<Rightarrow> None)"

text \<open>\<open>pthread_mutex_unlock\<close> by the owner frees the mutex; by any other thread it is
  undefined, here \<open>None\<close>.\<close>

fun pthread_mutex_unlock :: "thread \<Rightarrow> mutex_ptr \<Rightarrow> 'a globals \<Rightarrow> 'a globals option" where
  "pthread_mutex_unlock t (MutexOf p) g =
     (if mutex (deref p g) = Some t
      then Some (store p ((deref p g)\<lparr>mutex := None\<rparr>) g)
      else None)"

text \<open>
  The result of a function that locks: \<open>Locked g\<close>, it has returned, in state \<open>g\<close>;
  \<open>Waiting m g\<close>, the caller waits in its call of \<open>pthread_mutex_lock\<close> on \<open>m\<close>, in
  state \<open>g\<close>, which has the locks it took before.
\<close>

datatype 'a lock_result = Locked 'a | Waiting mutex_ptr 'a

fun returned :: "'a lock_result \<Rightarrow> 'a option" where
  "returned (Locked g) = Some g"
| "returned (Waiting m g) = None"

text \<open>\<open>lock_pair(m1, m2)\<close> called by thread \<open>t\<close>: the test on \<open>m1\<close> and the two lock
  calls of the branch taken, the second one made when the first has returned.\<close>

definition lock_pair :: "thread \<Rightarrow> mutex_ptr \<Rightarrow> mutex_ptr \<Rightarrow> 'a globals \<Rightarrow> 'a globals lock_result" where
  "lock_pair t m1 m2 g =
     (if m1 = MutexOf Acc1 then
        (case pthread_mutex_lock t m1 g of
           None \<Rightarrow> Waiting m1 g
         | Some g \<Rightarrow>
             (case pthread_mutex_lock t m2 g of
                None \<Rightarrow> Waiting m2 g
              | Some g \<Rightarrow> Locked g))
      else
        (case pthread_mutex_lock t m2 g of
           None \<Rightarrow> Waiting m2 g
         | Some g \<Rightarrow>
             (case pthread_mutex_lock t m1 g of
                None \<Rightarrow> Waiting m1 g
              | Some g \<Rightarrow> Locked g)))"

definition unlock_pair :: "thread \<Rightarrow> mutex_ptr \<Rightarrow> mutex_ptr \<Rightarrow> 'a globals \<Rightarrow> 'a globals option" where
  "unlock_pair t m1 m2 g = do {
     g \<leftarrow> pthread_mutex_unlock t m1 g;
     pthread_mutex_unlock t m2 g
   }"

subsection \<open>The transfer\<close>

text \<open>
  \<open>transfer_funds(source, dest)\<close> called by thread \<open>t\<close>. The result is the returned
  \<open>int\<close> and the globals after the call; \<open>None\<close> when \<open>lock_pair\<close> does not return.
\<close>

definition transfer_funds ::
  "thread \<Rightarrow> acct_ptr \<Rightarrow> acct_ptr \<Rightarrow> ('a::{ord,plus,minus}) globals \<Rightarrow> (int \<times> 'a globals) option"
where
  "transfer_funds t source dest g0 = do {
     g \<leftarrow> returned (lock_pair t (MutexOf source) (MutexOf dest) g0);
     if is_terminated g \<noteq> 0 then do {
       g \<leftarrow> unlock_pair t (MutexOf source) (MutexOf dest) g;
       Some (- 1, g)
     }
     else if balance (deref source g) < transfer_amount (deref source g) then do {
       let g = g\<lparr>termination_reason :=
                   snprintf 100 ''Insufficient funds in Account %d'' (acct_id (deref source g))\<rparr>;
       let g = g\<lparr>is_terminated := 1\<rparr>;
       g \<leftarrow> unlock_pair t (MutexOf source) (MutexOf dest) g;
       Some (- 1, g)
     }
     else do {
       let g = store source ((deref source g)
                 \<lparr>balance := balance (deref source g) - transfer_amount (deref source g)\<rparr>) g;
       let g = store dest ((deref dest g)
                 \<lparr>balance := balance (deref dest g) + transfer_amount (deref source g)\<rparr>) g;
       let g = store source ((deref source g)
                 \<lparr>successful_transfers := successful_transfers (deref source g) + 1\<rparr>) g;
       let g = g\<lparr>stdout := stdout g @
                 [SUCCESS (acct_id (deref source g)) (acct_id (deref dest g))
                    (transfer_amount (deref source g))
                    (acct_id (deref source g)) (balance (deref source g))]\<rparr>;
       g \<leftarrow> unlock_pair t (MutexOf source) (MutexOf dest) g;
       Some (0, g)
     }
   }"

text \<open>The globals when \<open>main\<close> has initialised the accounts and read the four amounts
  (the arguments), before it starts the threads.\<close>

definition initial :: "'a \<Rightarrow> 'a \<Rightarrow> 'a \<Rightarrow> 'a \<Rightarrow> 'a globals" where
  "initial b1 a1 b2 a2 =
     \<lparr>is_terminated = 0, termination_reason = '''',
      account1 = \<lparr>balance = b1, transfer_amount = a1, successful_transfers = 0,
                  mutex = None, acct_id = 1\<rparr>,
      account2 = \<lparr>balance = b2, transfer_amount = a2, successful_transfers = 0,
                  mutex = None, acct_id = 2\<rparr>,
      stdout = []\<rparr>"

text \<open>The fifth argument of the \<open>printf\<close>: the balance the line shows.\<close>

fun line_balance :: "'a line \<Rightarrow> 'a" where
  "line_balance (SUCCESS s d amt i b) = b"

subsection \<open>Sequences of calls\<close>

text \<open>
  The only calls of the program: \<open>thread_transfer_1_to_2\<close> (thread \<open>T1\<close>) calls
  \<open>transfer_funds(&account1, &account2)\<close>, \<open>thread_transfer_2_to_1\<close> (thread \<open>T2\<close>)
  calls \<open>transfer_funds(&account2, &account1)\<close>.
\<close>

fun source_of :: "thread \<Rightarrow> acct_ptr" where
  "source_of T1 = Acc1"
| "source_of T2 = Acc2"

fun dest_of :: "thread \<Rightarrow> acct_ptr" where
  "dest_of T1 = Acc2"
| "dest_of T2 = Acc1"

text \<open>A sequence of calls, one after the other, each by the thread named: the globals
  after the last one. Return values are dropped, so the sequences include those in which
  a thread goes on calling after a failure.\<close>

fun transfers :: "thread list \<Rightarrow> ('a::{ord,plus,minus}) globals \<Rightarrow> 'a globals option" where
  "transfers [] g = Some g"
| "transfers (t # ts) g = do {
     (r, g) \<leftarrow> transfer_funds t (source_of t) (dest_of t) g;
     transfers ts g
   }"

subsection \<open>The arithmetic of doubles\<close>

text \<open>
  A finite C \<open>double\<close> (IEEE 754 binary64) is a rational number with a significand of
  53 bits. The sum and the difference of two doubles are the exact result rounded to
  the nearest such number, a tie going to the one with an even significand. The model
  keeps the 53 bits and the rounding and leaves the exponent unbounded: it has no
  infinities, no NaN and no overflow, so it is the arithmetic of C for finite doubles
  whose sum or difference is below \<open>2^1024\<close> in magnitude.
\<close>

text \<open>The number of binary digits of a positive integer.\<close>

function bits :: "int \<Rightarrow> nat" where
  "bits n = (if n \<le> 0 then 0 else Suc (bits (n div 2)))"
  by pat_completeness auto

termination bits
  by (relation "measure nat") auto

declare bits.simps [simp del]

text \<open>\<open>ilog2 r\<close> is the exponent of a positive \<open>r\<close>: the \<open>e\<close> with
  \<open>2^e \<le> r < 2^(e+1)\<close>.\<close>

definition ilog2 :: "rat \<Rightarrow> int" where
  "ilog2 r =
     (if 1 \<le> r then int (bits \<lfloor>r\<rfloor>) - 1
      else - int (bits (\<lceil>1 / r\<rceil> - 1)))"

definition pow2 :: "int \<Rightarrow> rat" where
  "pow2 k = (if 0 \<le> k then 2 ^ nat k else 1 / 2 ^ nat (- k))"

text \<open>The nearest integer, a tie going to the even one.\<close>

definition rne :: "rat \<Rightarrow> int" where
  "rne r =
     (let n = \<lfloor>r\<rfloor>; d = r - of_int n
      in if d < 1 / 2 then n else if 1 / 2 < d then n + 1 else if even n then n else n + 1)"

text \<open>\<open>fl x\<close> is \<open>x\<close> rounded to 53 bits: the nearest multiple of the unit in the last
  place of \<open>x\<close>, which is \<open>2^(e - 52)\<close> for the exponent \<open>e\<close> of \<open>x\<close>.\<close>

definition fl :: "rat \<Rightarrow> rat" where
  "fl x = (if x = 0 then 0 else let u = pow2 (ilog2 \<bar>x\<bar> - 52) in of_int (rne (x / u)) * u)"

datatype double = Double rat

fun val :: "double \<Rightarrow> rat" where
  "val (Double x) = x"

instantiation double :: "{zero, plus, minus, ord}"
begin

definition zero_double :: double where
  "zero_double = Double 0"

definition plus_double :: "double \<Rightarrow> double \<Rightarrow> double" where
  "plus_double x y = Double (fl (val x + val y))"

definition minus_double :: "double \<Rightarrow> double \<Rightarrow> double" where
  "minus_double x y = Double (fl (val x - val y))"

definition less_eq_double :: "double \<Rightarrow> double \<Rightarrow> bool" where
  "less_eq_double x y \<longleftrightarrow> val x \<le> val y"

definition less_double :: "double \<Rightarrow> double \<Rightarrow> bool" where
  "less_double x y \<longleftrightarrow> val x < val y"

instance ..

end

text \<open>\<open>scanf("%lf")\<close> of a decimal number: the nearest double.\<close>

definition scan_double :: "rat \<Rightarrow> double" where
  "scan_double q = Double (fl q)"

text \<open>The accounts hold whole numbers, none negative, and the balances add up to \<open>s\<close>.\<close>

definition whole :: "int \<Rightarrow> double globals \<Rightarrow> bool" where
  "whole s g \<longleftrightarrow>
     (\<exists>x1 y1 x2 y2. balance (account1 g) = Double (of_int x1) \<and>
        transfer_amount (account1 g) = Double (of_int y1) \<and>
        balance (account2 g) = Double (of_int x2) \<and>
        transfer_amount (account2 g) = Double (of_int y2) \<and>
        0 \<le> x1 \<and> 0 \<le> y1 \<and> 0 \<le> x2 \<and> 0 \<le> y2 \<and> x1 + x2 = s)"

section \<open>The threads, step by step\<close>

text \<open>
  The program runs three threads: the two workers and \<open>main\<close>. Each worker is modelled
  by its program points and one transition per statement that reads or writes shared
  memory; a run of the program is a schedule, a list saying whose turn it is. Every
  transition is atomic. In particular a write of the whole reason buffer (\<open>snprintf\<close>,
  \<open>strcpy\<close>) is one transition: the C program gives no such guarantee for the write in
  \<open>main\<close>, which holds no lock. Waiting (\<open>sleep\<close>, \<open>nanosleep\<close>) is a transition that
  can be taken at any time, so the model has every run of the program and more.
\<close>

subsection \<open>The workers\<close>

text \<open>The two calls of \<open>pthread_mutex_lock\<close> in \<open>lock_pair\<close>, in the order in which
  it makes them.\<close>

definition lock_first :: "mutex_ptr \<Rightarrow> mutex_ptr \<Rightarrow> mutex_ptr" where
  "lock_first m1 m2 = (if m1 = MutexOf Acc1 then m1 else m2)"

definition lock_second :: "mutex_ptr \<Rightarrow> mutex_ptr \<Rightarrow> mutex_ptr" where
  "lock_second m1 m2 = (if m1 = MutexOf Acc1 then m2 else m1)"

text \<open>
  The program points of a worker, named by what the worker does next:
  \<^item> \<open>While\<close>: the test \<open>while (!is_terminated)\<close> of the thread routine;
  \<^item> \<open>Lock_first\<close>, \<open>Lock_second\<close>: the two lock calls of \<open>lock_pair\<close>;
  \<^item> \<open>Check_terminated\<close>: \<open>if (is_terminated)\<close> in \<open>transfer_funds\<close>;
  \<^item> \<open>Check_funds\<close>: \<open>if (source->balance < source->transfer_amount)\<close>;
  \<^item> \<open>Write_reason\<close>, \<open>Set_terminated\<close>: the \<open>snprintf\<close> and \<open>is_terminated = 1\<close>;
  \<^item> \<open>Subtract\<close>, \<open>Add\<close>, \<open>Count\<close>, \<open>Print\<close>: the three updates and the \<open>printf\<close>;
  \<^item> \<open>Unlock_first r\<close>, \<open>Unlock_second r\<close>: the two calls of \<open>unlock_pair\<close>, before
    \<open>return r\<close>;
  \<^item> \<open>Returned r\<close>: the test \<open>if (transfer_funds(...) != 0) break\<close>;
  \<^item> \<open>Nanosleep\<close>: the call of \<open>nanosleep\<close>;
  \<^item> \<open>Exited\<close>: the routine has returned.
\<close>

datatype point =
    While
  | Lock_first
  | Lock_second
  | Check_terminated
  | Check_funds
  | Write_reason
  | Set_terminated
  | Subtract
  | Add
  | Count
  | Print
  | Unlock_first int
  | Unlock_second int
  | Returned int
  | Nanosleep
  | Exited

text \<open>
  What a worker's loop does, as seen from outside \<open>transfer_funds\<close>: \<open>Poll v\<close>, the
  loop test read \<open>is_terminated\<close> and found \<open>v\<close>; \<open>Call\<close>, it called \<open>transfer_funds\<close>;
  \<open>Return r\<close>, the call returned \<open>r\<close>; \<open>Wait sec nsec\<close>, it called \<open>nanosleep\<close> with
  \<open>tv_sec = sec\<close> and \<open>tv_nsec = nsec\<close>. How long \<open>nanosleep\<close> then waits is not
  modelled.
\<close>

datatype cevent = Poll int | Call | Return int | Wait int int

text \<open>
  One transition of worker \<open>t\<close> at a program point, on the globals; \<open>period\<close> is
  \<open>transfer_period_ms\<close>. The result is the next program point, the globals, the events
  of the transition (newest first) and the strings it wrote to \<open>termination_reason\<close>.
  \<open>None\<close>: the worker cannot move (it waits for a mutex, or has exited).
\<close>

fun worker ::
  "thread \<Rightarrow> point \<Rightarrow> int \<Rightarrow> ('a::{ord,plus,minus}) globals \<Rightarrow>
     (point \<times> 'a globals \<times> cevent list \<times> string list) option"
where
  "worker t While period g =
     (if is_terminated g \<noteq> 0 then Some (Exited, g, [Poll (is_terminated g)], [])
      else Some (Lock_first, g, [Call, Poll 0], []))"
| "worker t Lock_first period g =
     (case pthread_mutex_lock t (lock_first (MutexOf (source_of t)) (MutexOf (dest_of t))) g of
        None \<Rightarrow> None
      | Some g \<Rightarrow> Some (Lock_second, g, [], []))"
| "worker t Lock_second period g =
     (case pthread_mutex_lock t (lock_second (MutexOf (source_of t)) (MutexOf (dest_of t))) g of
        None \<Rightarrow> None
      | Some g \<Rightarrow> Some (Check_terminated, g, [], []))"
| "worker t Check_terminated period g =
     (if is_terminated g \<noteq> 0 then Some (Unlock_first (- 1), g, [], [])
      else Some (Check_funds, g, [], []))"
| "worker t Check_funds period g =
     (if balance (deref (source_of t) g) < transfer_amount (deref (source_of t) g)
      then Some (Write_reason, g, [], [])
      else Some (Subtract, g, [], []))"
| "worker t Write_reason period g =
     (let text = snprintf 100 ''Insufficient funds in Account %d''
                   (acct_id (deref (source_of t) g))
      in Some (Set_terminated, g\<lparr>termination_reason := text\<rparr>, [], [text]))"
| "worker t Set_terminated period g =
     Some (Unlock_first (- 1), g\<lparr>is_terminated := 1\<rparr>, [], [])"
| "worker t Subtract period g =
     (let source = source_of t
      in Some (Add, store source ((deref source g)
           \<lparr>balance := balance (deref source g) - transfer_amount (deref source g)\<rparr>) g, [], []))"
| "worker t Add period g =
     (let source = source_of t; dest = dest_of t
      in Some (Count, store dest ((deref dest g)
           \<lparr>balance := balance (deref dest g) + transfer_amount (deref source g)\<rparr>) g, [], []))"
| "worker t Count period g =
     (let source = source_of t
      in Some (Print, store source ((deref source g)
           \<lparr>successful_transfers := successful_transfers (deref source g) + 1\<rparr>) g, [], []))"
| "worker t Print period g =
     (let source = source_of t; dest = dest_of t
      in Some (Unlock_first 0, g\<lparr>stdout := stdout g @
           [SUCCESS (acct_id (deref source g)) (acct_id (deref dest g))
              (transfer_amount (deref source g))
              (acct_id (deref source g)) (balance (deref source g))]\<rparr>, [], []))"
| "worker t (Unlock_first r) period g =
     (case pthread_mutex_unlock t (MutexOf (source_of t)) g of
        None \<Rightarrow> None
      | Some g \<Rightarrow> Some (Unlock_second r, g, [], []))"
| "worker t (Unlock_second r) period g =
     (case pthread_mutex_unlock t (MutexOf (dest_of t)) g of
        None \<Rightarrow> None
      | Some g \<Rightarrow> Some (Returned r, g, [Return r], []))"
| "worker t (Returned r) period g =
     (if r \<noteq> 0 then Some (Exited, g, [], []) else Some (Nanosleep, g, [], []))"
| "worker t Nanosleep period g = Some (While, g, [Wait 0 (period * 1000000)], [])"
| "worker t Exited period g = None"

subsection \<open>The whole program\<close>

text \<open>The program points of \<open>main\<close> once both threads are created: \<open>sleep\<close>, the test
  \<open>if (!is_terminated)\<close>, \<open>is_terminated = 1\<close>, the \<open>strcpy\<close>, the two joins, the final
  report, the end.\<close>

datatype main_point = Sleep | Check | Set_flag | Copy_reason | Join1 | Join2 | Report | Finished

text \<open>The final report of \<open>main\<close>: the two balances, the two counters, the reason.\<close>

datatype 'a report = Final_results 'a 'a int int string

text \<open>
  The state of the program: the globals, the two configuration variables, where each
  thread is, and three records of what has happened: \<open>trace\<close>, each worker's events
  (newest first); \<open>reasons\<close>, every string written to \<open>termination_reason\<close> (newest first);
  \<open>reported\<close>, the final report once \<open>main\<close> has printed it.
\<close>

record 'a system =
  shared :: "'a globals"
  transfer_period_ms :: int
  deadline_sec :: int
  pc :: "thread \<Rightarrow> point"
  pc_main :: main_point
  trace :: "thread \<Rightarrow> cevent list"
  reasons :: "string list"
  reported :: "'a report option"

fun main_step :: "main_point \<Rightarrow> 'a system \<Rightarrow> 'a system option" where
  "main_step Sleep s = Some (s\<lparr>pc_main := Check\<rparr>)"
| "main_step Check s =
     (if is_terminated (shared s) = 0 then Some (s\<lparr>pc_main := Set_flag\<rparr>)
      else Some (s\<lparr>pc_main := Join1\<rparr>))"
| "main_step Set_flag s =
     Some (s\<lparr>shared := (shared s)\<lparr>is_terminated := 1\<rparr>, pc_main := Copy_reason\<rparr>)"
| "main_step Copy_reason s =
     Some (s\<lparr>shared := (shared s)\<lparr>termination_reason := ''Global deadline expired''\<rparr>,
             reasons := ''Global deadline expired'' # reasons s,
             pc_main := Join1\<rparr>)"
| "main_step Join1 s = (if pc s T1 = Exited then Some (s\<lparr>pc_main := Join2\<rparr>) else None)"
| "main_step Join2 s = (if pc s T2 = Exited then Some (s\<lparr>pc_main := Report\<rparr>) else None)"
| "main_step Report s =
     (let g = shared s
      in Some (s\<lparr>reported := Some (Final_results (balance (account1 g)) (balance (account2 g))
                  (successful_transfers (account1 g)) (successful_transfers (account2 g))
                  (termination_reason g)),
                pc_main := Finished\<rparr>))"
| "main_step Finished s = None"

datatype actor = Worker thread | Main_thread

fun step :: "actor \<Rightarrow> ('a::{ord,plus,minus}) system \<Rightarrow> 'a system option" where
  "step (Worker t) s =
     (case worker t (pc s t) (transfer_period_ms s) (shared s) of
        None \<Rightarrow> None
      | Some (p, g, es, ws) \<Rightarrow>
          Some (s\<lparr>shared := g, pc := (pc s)(t := p),
                  trace := (trace s)(t := es @ trace s t), reasons := ws @ reasons s\<rparr>))"
| "step Main_thread s = main_step (pc_main s) s"

text \<open>A schedule, run from a state; the turn of a thread that cannot move changes
  nothing.\<close>

fun run :: "actor list \<Rightarrow> ('a::{ord,plus,minus}) system \<Rightarrow> 'a system" where
  "run [] s = s"
| "run (a # as) s = run as (case step a s of None \<Rightarrow> s | Some s' \<Rightarrow> s')"

text \<open>The state when \<open>main\<close> has created both threads.\<close>

definition start :: "'a \<Rightarrow> 'a \<Rightarrow> 'a \<Rightarrow> 'a \<Rightarrow> int \<Rightarrow> int \<Rightarrow> 'a system" where
  "start b1 a1 b2 a2 period deadline =
     \<lparr>shared = initial b1 a1 b2 a2, transfer_period_ms = period, deadline_sec = deadline,
      pc = (\<lambda>t. While), pc_main = Sleep, trace = (\<lambda>t. []), reasons = [], reported = None\<rparr>"

subsection \<open>Predicates on states and histories\<close>

text \<open>The reasons the program can give (the account ids are 1 and 2).\<close>

definition valid_reason :: "string \<Rightarrow> bool" where
  "valid_reason r \<longleftrightarrow>
     r = ''Insufficient funds in Account 1'' \<or> r = ''Insufficient funds in Account 2'' \<or>
     r = ''Global deadline expired''"

text \<open>The invariant behind the termination state: the reason is empty or valid; once the
  flag is set the reason is valid, except between the two statements of \<open>main\<close> that set
  the flag and then copy the reason; a worker about to set the flag has written its
  reason; \<open>main\<close> past its test has the flag set.\<close>

definition reason_inv :: "'a system \<Rightarrow> bool" where
  "reason_inv s \<longleftrightarrow>
     acct_id (account1 (shared s)) = 1 \<and> acct_id (account2 (shared s)) = 2 \<and>
     (termination_reason (shared s) = '''' \<or> valid_reason (termination_reason (shared s))) \<and>
     (\<forall>r \<in> set (reasons s). valid_reason r) \<and>
     (is_terminated (shared s) \<noteq> 0 \<longrightarrow>
        valid_reason (termination_reason (shared s)) \<or> pc_main s = Copy_reason) \<and>
     (\<forall>t. pc s t = Set_terminated \<longrightarrow> valid_reason (termination_reason (shared s))) \<and>
     (pc_main s \<in> {Copy_reason, Join1, Join2, Report, Finished} \<longrightarrow> is_terminated (shared s) \<noteq> 0) \<and>
     (pc_main s = Finished \<longrightarrow> reported s \<noteq> None) \<and>
     (\<forall>b1 b2 n1 n2 r. reported s = Some (Final_results b1 b2 n1 n2 r) \<longrightarrow> valid_reason r)"






subsection \<open>Predicates on the locks, the writes and the money\<close>

text \<open>
  \<open>holds t p a\<close>: a worker \<open>t\<close> at point \<open>p\<close> owns the mutex of account \<open>a\<close>. Between its
  two lock calls it owns the mutex of account 1 only; from the second lock call to the
  first unlock call it owns both; between the two unlock calls it owns the mutex of its
  destination (\<open>unlock_pair\<close> releases the source's first); elsewhere it owns none.
\<close>

fun holds :: "thread \<Rightarrow> point \<Rightarrow> acct_ptr \<Rightarrow> bool" where
  "holds t While a = False"
| "holds t Lock_first a = False"
| "holds t Lock_second a = (a = Acc1)"
| "holds t (Unlock_second r) a = (a = dest_of t)"
| "holds t (Returned r) a = False"
| "holds t Nanosleep a = False"
| "holds t Exited a = False"
| "holds t p a = True"

text \<open>The owner recorded in each mutex is the worker whose program point says so.\<close>

definition lock_inv :: "'a system \<Rightarrow> bool" where
  "lock_inv s \<longleftrightarrow>
     (\<forall>t. (mutex (account1 (shared s)) = Some t) = holds t (pc s t) Acc1) \<and>
     (\<forall>t. (mutex (account2 (shared s)) = Some t) = holds t (pc s t) Acc2)"




text \<open>\<open>main\<close> is past a join only when the thread it joined has returned.\<close>

definition join_inv :: "'a system \<Rightarrow> bool" where
  "join_inv s \<longleftrightarrow>
     (pc_main s \<in> {Join2, Report, Finished} \<longrightarrow> pc s T1 = Exited) \<and>
     (pc_main s \<in> {Report, Finished} \<longrightarrow> pc s T2 = Exited)"

text \<open>
  A bound on the transitions a thread still has once the flag is set: a worker then
  leaves its loop at the next test or after the call it is in, and \<open>main\<close> has no loop.
  For a worker inside the call the bound counts the longest way out, through the
  remaining statements of the success path.
\<close>

fun rank :: "point \<Rightarrow> nat" where
  "rank Exited = 0"
| "rank While = 1"
| "rank Nanosleep = 2"
| "rank (Returned r) = (if r \<noteq> 0 then 1 else 3)"
| "rank (Unlock_second r) = (if r \<noteq> 0 then 2 else 4)"
| "rank (Unlock_first r) = (if r \<noteq> 0 then 3 else 5)"
| "rank Set_terminated = 4"
| "rank Write_reason = 5"
| "rank Print = 6"
| "rank Count = 7"
| "rank Add = 8"
| "rank Subtract = 9"
| "rank Check_funds = 10"
| "rank Check_terminated = 4"
| "rank Lock_second = 5"
| "rank Lock_first = 6"

fun rank_main :: "main_point \<Rightarrow> nat" where
  "rank_main Finished = 0"
| "rank_main Report = 1"
| "rank_main Join2 = 2"
| "rank_main Join1 = 3"
| "rank_main Copy_reason = 4"
| "rank_main Set_flag = 5"
| "rank_main Check = 6"
| "rank_main Sleep = 7"

definition potential :: "'a system \<Rightarrow> nat" where
  "potential s = rank (pc s T1) + rank (pc s T2) + rank_main (pc_main s)"

text \<open>The number of turns of a schedule in which the thread moves.\<close>

fun moves :: "actor list \<Rightarrow> ('a::{ord,plus,minus}) system \<Rightarrow> nat" where
  "moves [] s = 0"
| "moves (a # as) s = (case step a s of None \<Rightarrow> moves as s | Some s' \<Rightarrow> Suc (moves as s'))"

text \<open>
  The money a worker has taken from its source and not yet given to its destination:
  the transfer amount while it is between the two assignments, nothing elsewhere.
\<close>

definition pending :: "thread \<Rightarrow> point \<Rightarrow> ('a::zero) globals \<Rightarrow> 'a" where
  "pending t p g = (if p = Add then transfer_amount (deref (source_of t) g) else 0)"

definition money_inv :: "('a::{zero,plus}) \<Rightarrow> 'a system \<Rightarrow> bool" where
  "money_inv sum0 s \<longleftrightarrow>
     balance (account1 (shared s)) + balance (account2 (shared s)) +
       pending T1 (pc s T1) (shared s) + pending T2 (pc s T2) (shared s) = sum0"

text \<open>Amounts and balances are not negative, and a worker about to subtract has passed
  the funds check.\<close>

definition funds_inv :: "('a::{zero,ord}) system \<Rightarrow> bool" where
  "funds_inv s \<longleftrightarrow>
     0 \<le> transfer_amount (account1 (shared s)) \<and> 0 \<le> transfer_amount (account2 (shared s)) \<and>
     0 \<le> balance (account1 (shared s)) \<and> 0 \<le> balance (account2 (shared s)) \<and>
     (\<forall>t. pc s t = Subtract \<longrightarrow>
        transfer_amount (deref (source_of t) (shared s)) \<le> balance (deref (source_of t) (shared s)))"

text \<open>\<open>n\<close> transitions of one worker with no other thread in between; \<open>None\<close> when it
  has to wait for a mutex or has returned.\<close>

fun solo :: "nat \<Rightarrow> thread \<Rightarrow> point \<Rightarrow> int \<Rightarrow> ('a::{ord,plus,minus}) globals \<Rightarrow> (point \<times> 'a globals) option" where
  "solo 0 t p period g = Some (p, g)"
| "solo (Suc n) t p period g =
     (case worker t p period g of
        None \<Rightarrow> None
      | Some (p', g', es, ws) \<Rightarrow> solo n t p' period g')"

section \<open>Properties of one call\<close>

lemma source_dest_distinct: "source_of t \<noteq> dest_of t"
  by (cases t) simp_all

text \<open>A call on two distinct accounts whose mutexes are free returns, and this is what
  it returns.\<close>

lemma transfer_funds_free:
  fixes g :: "('a::{ord,plus,minus}) globals"
  assumes "source \<noteq> dest" "mutex (account1 g) = None" "mutex (account2 g) = None"
  shows "transfer_funds t source dest g = Some
     (if is_terminated g \<noteq> 0 then (- 1, g)
      else if balance (deref source g) < transfer_amount (deref source g) then
        (- 1, g\<lparr>termination_reason :=
                   snprintf 100 ''Insufficient funds in Account %d'' (acct_id (deref source g)),
                is_terminated := 1\<rparr>)
      else (0, (store dest ((deref dest g)
                   \<lparr>balance := balance (deref dest g) + transfer_amount (deref source g)\<rparr>)
                (store source ((deref source g)
                   \<lparr>balance := balance (deref source g) - transfer_amount (deref source g),
                    successful_transfers := successful_transfers (deref source g) + 1\<rparr>) g))
              \<lparr>stdout := stdout g @
                 [SUCCESS (acct_id (deref source g)) (acct_id (deref dest g))
                    (transfer_amount (deref source g))
                    (acct_id (deref source g))
                    (balance (deref source g) - transfer_amount (deref source g))]\<rparr>))"
  using assms
  by (cases source; cases dest) (simp_all add: transfer_funds_def lock_pair_def unlock_pair_def Let_def)

text \<open>It returns in no other state.\<close>

lemma transfer_funds_returns_iff:
  fixes g :: "('a::{ord,plus,minus}) globals"
  shows "(transfer_funds t source dest g \<noteq> None) =
           (source \<noteq> dest \<and> mutex (account1 g) = None \<and> mutex (account2 g) = None)"
  by (cases source; cases dest)
     (auto simp add: transfer_funds_def lock_pair_def unlock_pair_def Let_def split: option.splits)

lemma transfer_funds_SomeD:
  fixes g :: "('a::{ord,plus,minus}) globals"
  assumes "transfer_funds t source dest g = Some x"
  shows "source \<noteq> dest" "mutex (account1 g) = None" "mutex (account2 g) = None"
  using assms transfer_funds_returns_iff [of t source dest g] by auto

text \<open>
  Claim C1. Called with the two account mutexes in either argument order, \<open>lock_pair\<close>
  asks for the mutex of account 1 first and for the mutex of account 2 only when it
  owns the first: while the mutex of account 1 is held by a thread, the caller waits for
  it and has taken nothing, whatever the state of the other mutex; when it has taken the
  mutex of account 1 and the mutex of account 2 is held, it waits for that one, owning
  the first; when both are free it returns, and the caller owns both and nothing else
  has changed. So account 2's mutex is never acquired before account 1's, and the call
  returns exactly when both are free.
\<close>

theorem lock_pair_fixed_order:
  assumes "{p, q} = {Acc1, Acc2}"
  shows "lock_pair t (MutexOf p) (MutexOf q) g =
           (if mutex (account1 g) \<noteq> None then Waiting (MutexOf Acc1) g
            else if mutex (account2 g) \<noteq> None then
              Waiting (MutexOf Acc2) (g\<lparr>account1 := (account1 g)\<lparr>mutex := Some t\<rparr>\<rparr>)
            else
              Locked (g\<lparr>account1 := (account1 g)\<lparr>mutex := Some t\<rparr>,
                        account2 := (account2 g)\<lparr>mutex := Some t\<rparr>\<rparr>))"
proof -
  from assms consider "p = Acc1" "q = Acc2" | "p = Acc2" "q = Acc1"
    by (cases p; cases q) auto
  then show ?thesis
    by cases (auto simp add: lock_pair_def split: option.splits)
qed

theorem lock_pair_fixed_order_witness:
  "{Acc2, Acc1} = {Acc1, Acc2} \<and>
   lock_pair T2 (MutexOf Acc2) (MutexOf Acc1)
       ((initial (100::int) 30 50 40)\<lparr>account1 := (account1 (initial 100 30 50 40))\<lparr>mutex := Some T1\<rparr>\<rparr>) =
     Waiting (MutexOf Acc1)
       ((initial (100::int) 30 50 40)\<lparr>account1 := (account1 (initial 100 30 50 40))\<lparr>mutex := Some T1\<rparr>\<rparr>) \<and>
   lock_pair T2 (MutexOf Acc2) (MutexOf Acc1) (initial (100::int) 30 50 40) =
     Locked \<lparr>is_terminated = 0, termination_reason = '''',
       account1 = \<lparr>balance = 100, transfer_amount = 30, successful_transfers = 0,
                   mutex = Some T2, acct_id = 1\<rparr>,
       account2 = \<lparr>balance = 50, transfer_amount = 40, successful_transfers = 0,
                   mutex = Some T2, acct_id = 2\<rparr>,
       stdout = []\<rparr>"
  using lock_pair_fixed_order [of Acc2 Acc1 T2
          "(initial (100::int) 30 50 40)\<lparr>account1 := (account1 (initial 100 30 50 40))\<lparr>mutex := Some T1\<rparr>\<rparr>"]
        lock_pair_fixed_order [of Acc2 Acc1 T2 "initial (100::int) 30 50 40"]
  by (auto simp add: initial_def)

text \<open>
  Claim C3. A call that returns 0 has subtracted the source's transfer amount from the
  source's balance, added it to the destination's balance, counted one more successful
  transfer for the source and left the destination's counter as it was.
\<close>

theorem transfer_funds_success:
  fixes g :: "('a::{ord,plus,minus}) globals"
  assumes "transfer_funds t source dest g = Some (0, g')"
  shows "balance (deref source g') = balance (deref source g) - transfer_amount (deref source g) \<and>
         balance (deref dest g') = balance (deref dest g) + transfer_amount (deref source g) \<and>
         successful_transfers (deref source g') = successful_transfers (deref source g) + 1 \<and>
         successful_transfers (deref dest g') = successful_transfers (deref dest g)"
proof -
  note free = transfer_funds_SomeD [OF assms]
  from assms show ?thesis
    unfolding transfer_funds_free [OF free]
    using free(1) by (cases source; cases dest) (auto split: if_splits)
qed

theorem transfer_funds_success_witness:
  "transfer_funds T1 Acc1 Acc2 (initial (100::int) 30 50 40) =
     Some (0, \<lparr>is_terminated = 0, termination_reason = '''',
       account1 = \<lparr>balance = 70, transfer_amount = 30, successful_transfers = 1,
                   mutex = None, acct_id = 1\<rparr>,
       account2 = \<lparr>balance = 80, transfer_amount = 40, successful_transfers = 0,
                   mutex = None, acct_id = 2\<rparr>,
       stdout = [SUCCESS 1 2 30 1 70]\<rparr>) \<and>
   (70::int) = 100 - 30 \<and> (80::int) = 50 + 30 \<and> (1::int) = 0 + 1"
proof -
  have call: "transfer_funds T1 Acc1 Acc2 (initial (100::int) 30 50 40) =
     Some (0, \<lparr>is_terminated = 0, termination_reason = '''',
       account1 = \<lparr>balance = 70, transfer_amount = 30, successful_transfers = 1,
                   mutex = None, acct_id = 1\<rparr>,
       account2 = \<lparr>balance = 80, transfer_amount = 40, successful_transfers = 0,
                   mutex = None, acct_id = 2\<rparr>,
       stdout = [SUCCESS 1 2 30 1 70]\<rparr>)"
    by (simp add: initial_def transfer_funds_free)
  from transfer_funds_success [OF call] call show ?thesis
    by (simp add: initial_def)
qed



text \<open>
  Claim C5. On two distinct accounts with free mutexes and the flag clear:
  when the source's balance equals its transfer amount, the call returns 0 and leaves the
  source's balance at 0; when the balance is below the amount, the call returns -1, sets
  the flag and writes the insufficient-funds reason of the source account. The laws of
  exact arithmetic used: \<open>x - x = 0\<close>, and \<open><\<close> is irreflexive.
\<close>

theorem funds_check_boundary:
  fixes g :: "('a::linordered_ab_group_add) globals"
  assumes "source \<noteq> dest" "mutex (account1 g) = None" "mutex (account2 g) = None"
    and "is_terminated g = 0"
  shows "(balance (deref source g) = transfer_amount (deref source g) \<longrightarrow>
            (\<exists>g'. transfer_funds t source dest g = Some (0, g') \<and> balance (deref source g') = 0)) \<and>
         (balance (deref source g) < transfer_amount (deref source g) \<longrightarrow>
            (\<exists>g'. transfer_funds t source dest g = Some (- 1, g') \<and>
                  is_terminated g' = 1 \<and>
                  termination_reason g' =
                    snprintf 100 ''Insufficient funds in Account %d'' (acct_id (deref source g))))"
  unfolding transfer_funds_free [OF assms(1-3)]
  using assms by (cases source; cases dest) auto

theorem funds_check_boundary_witness:
  "(\<exists>g'. transfer_funds T2 Acc2 Acc1 (initial (100::int) 30 40 40) = Some (0, g') \<and>
         balance (account2 g') = 0) \<and>
   (\<exists>g'. transfer_funds T2 Acc2 Acc1 (initial (100::int) 30 39 40) = Some (- 1, g') \<and>
         is_terminated g' = 1 \<and> termination_reason g' = ''Insufficient funds in Account 2'')"
  using funds_check_boundary [of Acc2 Acc1 "initial (100::int) 30 40 40" T2]
        funds_check_boundary [of Acc2 Acc1 "initial (100::int) 30 39 40" T2]
  by (simp add: initial_def snprintf_def format_d_def decimal.simps)

text \<open>
  Claim C9, as amended. A call that returns 0 has written one line: the source's id, the
  destination's id, the source's transfer amount, then the source's id again and the
  source's new balance.
\<close>

theorem success_line:
  fixes g :: "('a::{ord,plus,minus}) globals"
  assumes "transfer_funds t source dest g = Some (0, g')"
  shows "stdout g' = stdout g @
           [SUCCESS (acct_id (deref source g)) (acct_id (deref dest g))
              (transfer_amount (deref source g))
              (acct_id (deref source g)) (balance (deref source g'))]"
proof -
  note free = transfer_funds_SomeD [OF assms]
  from assms show ?thesis
    unfolding transfer_funds_free [OF free]
    using free(1) by (cases source; cases dest) (auto split: if_splits)
qed

theorem success_line_witness:
  "stdout (snd (the (transfer_funds T2 Acc2 Acc1 (initial (100::int) 30 50 40)))) =
     [SUCCESS 2 1 40 2 10]"
proof -
  have call: "transfer_funds T2 Acc2 Acc1 (initial (100::int) 30 50 40) =
     Some (0, \<lparr>is_terminated = 0, termination_reason = '''',
      account1 = \<lparr>balance = 140, transfer_amount = 30, successful_transfers = 0,
                  mutex = None, acct_id = 1\<rparr>,
      account2 = \<lparr>balance = 10, transfer_amount = 40, successful_transfers = 1,
                  mutex = None, acct_id = 2\<rparr>,
      stdout = [SUCCESS 2 1 40 2 10]\<rparr>)"
    by (simp add: initial_def transfer_funds_free)
  from success_line [OF call] call show ?thesis
    by (simp add: initial_def)
qed

text \<open>
  Claim C9 as stated fails: after a transfer of 30 from account 1 (100) to account 2 (50)
  the destination's new balance is 80, and the line shows 70, the source's new balance;
  80 is nowhere in the line.
\<close>

theorem success_line_not_dest_balance:
  "transfer_funds T1 Acc1 Acc2 (initial (100::int) 30 50 40) =
     Some (0, \<lparr>is_terminated = 0, termination_reason = '''',
      account1 = \<lparr>balance = 70, transfer_amount = 30, successful_transfers = 1,
                  mutex = None, acct_id = 1\<rparr>,
      account2 = \<lparr>balance = 80, transfer_amount = 40, successful_transfers = 0,
                  mutex = None, acct_id = 2\<rparr>,
      stdout = [SUCCESS 1 2 30 1 70]\<rparr>) \<and>
   line_balance (last (stdout (snd (the (transfer_funds T1 Acc1 Acc2 (initial (100::int) 30 50 40))))))
     \<noteq> balance (account2 (snd (the (transfer_funds T1 Acc1 Acc2 (initial (100::int) 30 50 40)))))"
  by (simp add: initial_def transfer_funds_free)

section \<open>Properties of sequences of calls\<close>

text \<open>One call by a thread, from a state with both mutexes free: it returns, the mutexes
  are free again, the transfer amounts are unchanged, the sum of the balances is
  unchanged, and non-negative balances stay non-negative when the amounts are
  non-negative.\<close>

lemma transfer_funds_step:
  fixes g :: "('a::linordered_ab_group_add) globals"
  assumes "mutex (account1 g) = None" "mutex (account2 g) = None"
  shows "\<exists>r g'. transfer_funds t (source_of t) (dest_of t) g = Some (r, g') \<and>
           mutex (account1 g') = None \<and> mutex (account2 g') = None \<and>
           transfer_amount (account1 g') = transfer_amount (account1 g) \<and>
           transfer_amount (account2 g') = transfer_amount (account2 g) \<and>
           balance (account1 g') + balance (account2 g') = balance (account1 g) + balance (account2 g) \<and>
           (0 \<le> transfer_amount (account1 g) \<and> 0 \<le> transfer_amount (account2 g) \<and>
            0 \<le> balance (account1 g) \<and> 0 \<le> balance (account2 g) \<longrightarrow>
            0 \<le> balance (account1 g') \<and> 0 \<le> balance (account2 g'))"
  unfolding transfer_funds_free [OF source_dest_distinct assms]
  using assms by (cases t) (auto simp add: not_less)

lemma transfers_invariant:
  fixes g :: "('a::linordered_ab_group_add) globals"
  assumes "mutex (account1 g) = None" "mutex (account2 g) = None"
  shows "\<exists>g'. transfers ts g = Some g' \<and>
           mutex (account1 g') = None \<and> mutex (account2 g') = None \<and>
           transfer_amount (account1 g') = transfer_amount (account1 g) \<and>
           transfer_amount (account2 g') = transfer_amount (account2 g) \<and>
           balance (account1 g') + balance (account2 g') = balance (account1 g) + balance (account2 g) \<and>
           (0 \<le> transfer_amount (account1 g) \<and> 0 \<le> transfer_amount (account2 g) \<and>
            0 \<le> balance (account1 g) \<and> 0 \<le> balance (account2 g) \<longrightarrow>
            0 \<le> balance (account1 g') \<and> 0 \<le> balance (account2 g'))"
  using assms
proof (induction ts arbitrary: g)
  case Nil
  then show ?case by simp
next
  case (Cons t ts)
  from transfer_funds_step [OF Cons.prems, of t] obtain r g1 where
    step: "transfer_funds t (source_of t) (dest_of t) g = Some (r, g1)"
    and free: "mutex (account1 g1) = None" "mutex (account2 g1) = None"
    and amt: "transfer_amount (account1 g1) = transfer_amount (account1 g)"
             "transfer_amount (account2 g1) = transfer_amount (account2 g)"
    and sum: "balance (account1 g1) + balance (account2 g1) = balance (account1 g) + balance (account2 g)"
    and nonneg: "0 \<le> transfer_amount (account1 g) \<and> 0 \<le> transfer_amount (account2 g) \<and>
            0 \<le> balance (account1 g) \<and> 0 \<le> balance (account2 g) \<longrightarrow>
            0 \<le> balance (account1 g1) \<and> 0 \<le> balance (account2 g1)"
    by blast
  from Cons.IH [OF free] obtain g' where
    rest: "transfers ts g1 = Some g'"
    and free': "mutex (account1 g') = None" "mutex (account2 g') = None"
    and amt': "transfer_amount (account1 g') = transfer_amount (account1 g1)"
             "transfer_amount (account2 g') = transfer_amount (account2 g1)"
    and sum': "balance (account1 g') + balance (account2 g') = balance (account1 g1) + balance (account2 g1)"
    and nonneg': "0 \<le> transfer_amount (account1 g1) \<and> 0 \<le> transfer_amount (account2 g1) \<and>
            0 \<le> balance (account1 g1) \<and> 0 \<le> balance (account2 g1) \<longrightarrow>
            0 \<le> balance (account1 g') \<and> 0 \<le> balance (account2 g')"
    by blast
  have "transfers (t # ts) g = Some g'" using step rest by simp
  with free' amt amt' sum sum' nonneg nonneg' show ?case by simp
qed

text \<open>With exact arithmetic every sequence of calls from the initial configuration keeps
  the sum of the balances: \<open>(a - x) + (b + x) = a + b\<close>.\<close>

lemma transfers_sum_exact:
  fixes b1 a1 b2 a2 :: "'a::linordered_ab_group_add"
  shows "\<exists>g'. transfers ts (initial b1 a1 b2 a2) = Some g' \<and>
           balance (account1 g') + balance (account2 g') = b1 + b2"
  using transfers_invariant [of "initial b1 a1 b2 a2" ts] by (auto simp add: initial_def)

subsection \<open>The sum of the balances in the arithmetic of doubles\<close>

lemma bits_bounds:
  assumes "0 < n"
  shows "2 ^ (bits n - 1) \<le> n \<and> n < 2 ^ bits n"
  using assms
proof (induction n rule: bits.induct)
  case (1 n)
  from 1(2) have eq: "bits n = Suc (bits (n div 2))" by (simp add: bits.simps [of n])
  show ?case
  proof (cases "n div 2 \<le> 0")
    case True
    with 1(2) have "n = 1" by simp
    then show ?thesis by (simp add: bits.simps [of 1] bits.simps [of 0])
  next
    case False
    with 1 have ih: "2 ^ (bits (n div 2) - 1) \<le> n div 2" "n div 2 < 2 ^ bits (n div 2)"
      by simp_all
    from False have pos: "0 < bits (n div 2)" by (simp add: bits.simps [of "n div 2"])
    from pos obtain k where k: "bits (n div 2) = Suc k" by (cases "bits (n div 2)") simp_all
    from ih k have "2 ^ k \<le> n div 2" "n div 2 < 2 ^ Suc k" by simp_all
    then have "2 * 2 ^ k \<le> n" "n < 2 * 2 ^ Suc k" by simp_all
    with eq k show ?thesis by simp
  qed
qed

lemma rne_of_int [simp]: "rne (of_int m) = m"
  by (simp add: rne_def)

text \<open>A whole number up to \<open>2^53\<close> is a double: rounding leaves it as it is.\<close>

lemma fl_int_exact:
  assumes "0 \<le> n" "n \<le> 2 ^ 53"
  shows "fl (of_int n) = of_int n"
proof (cases "n = 0")
  case True
  then show ?thesis by (simp add: fl_def)
next
  case False
  with assms(1) have pos: "0 < n" by simp
  define k where "k = bits n"
  from bits_bounds [OF pos] have low: "2 ^ (k - 1) \<le> n" by (simp add: k_def)
  from pos have abs: "\<bar>of_int n :: rat\<bar> = of_int n" by simp
  from pos have one: "(1::rat) \<le> of_int n" by simp
  have e: "ilog2 (of_int n) = int k - 1"
    unfolding ilog2_def using one by (simp add: k_def)
  from pos have flx: "fl (of_int n) =
      of_int (rne (of_int n / pow2 (ilog2 (of_int n) - 52))) * pow2 (ilog2 (of_int n) - 52)"
    by (simp add: fl_def Let_def abs)
  from pos have kpos: "0 < k" unfolding k_def by (simp add: bits.simps [of n])
  from low assms(2) have "(2::int) ^ (k - 1) \<le> 2 ^ 53" by (rule order_trans)
  then have k54: "k - 1 \<le> 53" by (rule power_le_imp_le_exp [rotated]) simp
  show ?thesis
  proof (cases "k - 1 = 53")
    case True
    with low have "2 ^ 53 \<le> n" by simp
    with assms(2) have n: "n = 2 ^ 53" by simp
    from True kpos have "int k - 1 - 52 = 1" by simp
    then have u: "pow2 (ilog2 (of_int n) - 52) = 2" by (simp add: e pow2_def)
    have q: "(of_int n :: rat) / 2 = of_int (2 ^ 52)" by (simp add: n)
    have "fl (of_int n) = of_int (rne (of_int (2 ^ 52))) * 2" unfolding flx u q ..
    also have "\<dots> = of_int (2 ^ 52) * 2" by (simp only: rne_of_int)
    also have "\<dots> = of_int n" by (simp add: n)
    finally show ?thesis .
  next
    case False
    with k54 have le: "k - 1 \<le> 52" by simp
    define j where "j = 52 - (k - 1)"
    from le kpos have ex: "int k - 1 - 52 = - int j" by (simp add: j_def)
    have u: "pow2 (ilog2 (of_int n) - 52) = 1 / 2 ^ j"
      by (cases "j = 0") (simp_all add: e ex pow2_def)
    have q: "(of_int n :: rat) / (1 / 2 ^ j) = of_int (n * 2 ^ j)" by simp
    have "fl (of_int n) = of_int (rne (of_int (n * 2 ^ j))) * (1 / 2 ^ j)" unfolding flx u q ..
    also have "\<dots> = of_int (n * 2 ^ j) * (1 / 2 ^ j)" by (simp only: rne_of_int)
    also have "\<dots> = of_int n" by simp
    finally show ?thesis .
  qed
qed

lemma scan_double_int:
  assumes "0 \<le> n" "n \<le> 2 ^ 53"
  shows "scan_double (of_int n) = Double (of_int n)"
  using fl_int_exact [OF assms] by (simp add: scan_double_def)

lemma wholeI:
  assumes "balance (account1 g) = Double (of_int x1)"
    "transfer_amount (account1 g) = Double (of_int y1)"
    "balance (account2 g) = Double (of_int x2)"
    "transfer_amount (account2 g) = Double (of_int y2)"
    "0 \<le> x1" "0 \<le> y1" "0 \<le> x2" "0 \<le> y2" "x1 + x2 = s"
  shows "whole s g"
  unfolding whole_def using assms by blast

text \<open>What a call does to the balances, in any arithmetic.\<close>

lemma transfer_funds_balances:
  fixes g :: "('a::{ord,plus,minus}) globals"
  assumes "mutex (account1 g) = None" "mutex (account2 g) = None"
  shows "\<exists>r g'. transfer_funds t (source_of t) (dest_of t) g = Some (r, g') \<and>
           mutex (account1 g') = None \<and> mutex (account2 g') = None \<and>
           transfer_amount (account1 g') = transfer_amount (account1 g) \<and>
           transfer_amount (account2 g') = transfer_amount (account2 g) \<and>
           (if is_terminated g \<noteq> 0 \<or>
               balance (deref (source_of t) g) < transfer_amount (deref (source_of t) g)
            then balance (account1 g') = balance (account1 g) \<and>
                 balance (account2 g') = balance (account2 g)
            else balance (deref (source_of t) g') =
                   balance (deref (source_of t) g) - transfer_amount (deref (source_of t) g) \<and>
                 balance (deref (dest_of t) g') =
                   balance (deref (dest_of t) g) + transfer_amount (deref (source_of t) g))"
  unfolding transfer_funds_free [OF source_dest_distinct assms]
  using assms by (cases t) auto

lemma transfer_funds_whole:
  assumes free: "mutex (account1 g) = None" "mutex (account2 g) = None"
    and w: "whole s g" and s: "s \<le> 2 ^ 53"
  shows "\<exists>r g'. transfer_funds t (source_of t) (dest_of t) g = Some (r, g') \<and>
           mutex (account1 g') = None \<and> mutex (account2 g') = None \<and> whole s g'"
proof -
  from w obtain x1 y1 x2 y2 where
    v: "balance (account1 g) = Double (of_int x1)" "transfer_amount (account1 g) = Double (of_int y1)"
       "balance (account2 g) = Double (of_int x2)" "transfer_amount (account2 g) = Double (of_int y2)"
    and n: "0 \<le> x1" "0 \<le> y1" "0 \<le> x2" "0 \<le> y2" and sum: "x1 + x2 = s"
    unfolding whole_def by blast
  have sub: "Double (of_int x) - Double (of_int y) = Double (of_int (x - y))"
    if "0 \<le> y" "y \<le> x" "x \<le> s" for x y
  proof -
    from that s have "0 \<le> x - y" "x - y \<le> 2 ^ 53" by simp_all
    from fl_int_exact [OF this] show ?thesis by (simp add: minus_double_def)
  qed
  have add: "Double (of_int x) + Double (of_int y) = Double (of_int (x + y))"
    if "0 \<le> x" "0 \<le> y" "x + y \<le> s" for x y
  proof -
    from that s have "0 \<le> x + y" "x + y \<le> 2 ^ 53" by simp_all
    from fl_int_exact [OF this] show ?thesis by (simp add: plus_double_def)
  qed
  from transfer_funds_balances [OF free, of t] obtain r g' where
    call: "transfer_funds t (source_of t) (dest_of t) g = Some (r, g')"
    and free': "mutex (account1 g') = None" "mutex (account2 g') = None"
    and amt: "transfer_amount (account1 g') = transfer_amount (account1 g)"
      "transfer_amount (account2 g') = transfer_amount (account2 g)"
    and bal: "if is_terminated g \<noteq> 0 \<or>
               balance (deref (source_of t) g) < transfer_amount (deref (source_of t) g)
            then balance (account1 g') = balance (account1 g) \<and>
                 balance (account2 g') = balance (account2 g)
            else balance (deref (source_of t) g') =
                   balance (deref (source_of t) g) - transfer_amount (deref (source_of t) g) \<and>
                 balance (deref (dest_of t) g') =
                   balance (deref (dest_of t) g) + transfer_amount (deref (source_of t) g)"
    by blast
  have "whole s g'"
  proof (cases "is_terminated g \<noteq> 0 \<or>
               balance (deref (source_of t) g) < transfer_amount (deref (source_of t) g)")
    case True
    with bal have "balance (account1 g') = balance (account1 g)"
      "balance (account2 g') = balance (account2 g)" by simp_all
    with amt v n sum show ?thesis by (intro wholeI [of g' x1 y1 x2 y2]) simp_all
  next
    case False
    with bal have new: "balance (deref (source_of t) g') =
                   balance (deref (source_of t) g) - transfer_amount (deref (source_of t) g)"
      "balance (deref (dest_of t) g') =
                   balance (deref (dest_of t) g) + transfer_amount (deref (source_of t) g)"
      by simp_all
    show ?thesis
    proof (cases t)
      case T1
      with False v have le: "y1 \<le> x1" by (simp add: less_double_def)
      from new T1 v have "balance (account1 g') = Double (of_int x1) - Double (of_int y1)"
        "balance (account2 g') = Double (of_int x2) + Double (of_int y1)" by simp_all
      with le n sum have "balance (account1 g') = Double (of_int (x1 - y1))"
        "balance (account2 g') = Double (of_int (x2 + y1))"
        by (simp_all add: sub add)
      with amt v n sum le show ?thesis
        by (intro wholeI [of g' "x1 - y1" y1 "x2 + y1" y2]) simp_all
    next
      case T2
      with False v have le: "y2 \<le> x2" by (simp add: less_double_def)
      from new T2 v have "balance (account2 g') = Double (of_int x2) - Double (of_int y2)"
        "balance (account1 g') = Double (of_int x1) + Double (of_int y2)" by simp_all
      with le n sum have "balance (account2 g') = Double (of_int (x2 - y2))"
        "balance (account1 g') = Double (of_int (x1 + y2))"
        by (simp_all add: sub add)
      with amt v n sum le show ?thesis
        by (intro wholeI [of g' "x1 + y2" y1 "x2 - y2" y2]) simp_all
    qed
  qed
  with call free' show ?thesis by blast
qed

lemma transfers_whole:
  assumes "mutex (account1 g) = None" "mutex (account2 g) = None" "whole s g" "s \<le> 2 ^ 53"
  shows "\<exists>g'. transfers ts g = Some g' \<and> whole s g'"
  using assms
proof (induction ts arbitrary: g)
  case Nil
  then show ?case by simp
next
  case (Cons t ts)
  from transfer_funds_whole [OF Cons.prems, of t] obtain r g1 where
    call: "transfer_funds t (source_of t) (dest_of t) g = Some (r, g1)"
    and free: "mutex (account1 g1) = None" "mutex (account2 g1) = None" and w: "whole s g1"
    by blast
  from Cons.IH [OF free w Cons.prems(4)] obtain g' where "transfers ts g1 = Some g'" "whole s g'"
    by blast
  with call show ?case by simp
qed

text \<open>
  Claim C4, as amended. In the arithmetic of doubles: from an initial configuration whose
  balances and transfer amounts are whole numbers, none negative and none above \<open>2^53\<close>,
  with the two balances adding up to at most \<open>2^53\<close>, every sequence of calls runs to its
  end, and after it the two balances add up to the sum of the two initial balances.
  Every prefix of a sequence is a sequence, so this holds between any two calls. On
  such numbers no subtraction and no addition of a transfer is rounded.
\<close>

theorem conservation:
  assumes "0 \<le> b1" "0 \<le> a1" "0 \<le> b2" "0 \<le> a2" "a1 \<le> 2 ^ 53" "a2 \<le> 2 ^ 53"
    and "b1 + b2 \<le> 2 ^ 53"
  shows "\<exists>g'. transfers ts (initial (scan_double (of_int b1)) (scan_double (of_int a1))
                   (scan_double (of_int b2)) (scan_double (of_int a2))) = Some g' \<and>
           val (balance (account1 g')) + val (balance (account2 g')) = of_int b1 + of_int b2"
proof -
  from assms have "b1 \<le> 2 ^ 53" "b2 \<le> 2 ^ 53" by simp_all
  with assms have scan: "scan_double (of_int b1) = Double (of_int b1)"
    "scan_double (of_int a1) = Double (of_int a1)"
    "scan_double (of_int b2) = Double (of_int b2)"
    "scan_double (of_int a2) = Double (of_int a2)"
    by (simp_all add: scan_double_int)
  let ?g = "initial (Double (of_int b1)) (Double (of_int a1)) (Double (of_int b2)) (Double (of_int a2))"
  have free: "mutex (account1 ?g) = None" "mutex (account2 ?g) = None"
    by (simp_all add: initial_def)
  have "whole (b1 + b2) ?g"
    using assms(1-4) by (intro wholeI [of _ b1 a1 b2 a2]) (simp_all add: initial_def)
  from transfers_whole [OF free this assms(7), of ts] obtain g' where
    run: "transfers ts ?g = Some g'" and w: "whole (b1 + b2) g'"
    by blast
  from w obtain x1 x2 where "balance (account1 g') = Double (of_int x1)"
    "balance (account2 g') = Double (of_int x2)" "x1 + x2 = b1 + b2"
    unfolding whole_def by blast
  then have "val (balance (account1 g')) + val (balance (account2 g')) = of_int b1 + of_int b2"
    by (simp flip: of_int_add)
  with run show ?thesis unfolding scan by blast
qed

theorem conservation_witness:
  "(0::int) \<le> 100 \<and> (0::int) \<le> 30 \<and> (0::int) \<le> 50 \<and> (0::int) \<le> 40 \<and>
   (30::int) \<le> 2 ^ 53 \<and> (40::int) \<le> 2 ^ 53 \<and> (100::int) + 50 \<le> 2 ^ 53 \<and>
   (\<exists>g'. transfers [T1, T2, T2, T1, T2, T1, T1]
            (initial (scan_double (of_int 100)) (scan_double (of_int 30))
               (scan_double (of_int 50)) (scan_double (of_int 40))) = Some g' \<and>
          val (balance (account1 g')) + val (balance (account2 g')) = of_int 100 + of_int 50)"
proof -
  have "(0::int) \<le> 100" "(0::int) \<le> 30" "(0::int) \<le> 50" "(0::int) \<le> 40"
    "(30::int) \<le> 2 ^ 53" "(40::int) \<le> 2 ^ 53" "(100::int) + 50 \<le> 2 ^ 53"
    by simp_all
  from this conservation [OF this, of "[T1, T2, T2, T1, T2, T1, T1]"] show ?thesis
    by (intro conjI)
qed

text \<open>
  Claim C4 as stated fails in the arithmetic of doubles. The program reads the balances
  0.7 and 0.1 and the amount 0.1, each as the nearest double; one transfer from account
  1 to account 2 subtracts and adds the same amount, the subtraction is rounded, and
  the two balances then add up to \<open>2^-55\<close> more than the two initial balances.
\<close>

theorem conservation_rounding:
  "transfers [T1] (initial (scan_double (7 / 10)) (scan_double (1 / 10))
      (scan_double (1 / 10)) (scan_double (1 / 10))) =
     Some \<lparr>is_terminated = 0, termination_reason = '''',
       account1 = \<lparr>balance = Double (5404319552844595 / 9007199254740992),
                   transfer_amount = Double (3602879701896397 / 36028797018963968),
                   successful_transfers = 1, mutex = None, acct_id = 1\<rparr>,
       account2 = \<lparr>balance = Double (3602879701896397 / 18014398509481984),
                   transfer_amount = Double (3602879701896397 / 36028797018963968),
                   successful_transfers = 0, mutex = None, acct_id = 2\<rparr>,
       stdout = [SUCCESS 1 2 (Double (3602879701896397 / 36028797018963968)) 1
                   (Double (5404319552844595 / 9007199254740992))]\<rparr> \<and>
   val (balance (account1 (the (transfers [T1] (initial (scan_double (7 / 10)) (scan_double (1 / 10))
      (scan_double (1 / 10)) (scan_double (1 / 10))))))) +
   val (balance (account2 (the (transfers [T1] (initial (scan_double (7 / 10)) (scan_double (1 / 10))
      (scan_double (1 / 10)) (scan_double (1 / 10))))))) -
   (val (scan_double (7 / 10)) + val (scan_double (1 / 10))) = 1 / 36028797018963968"
  by code_simp

text \<open>The bound of the amended claim cannot be raised: with the whole numbers 1 and
  \<open>2^53\<close> as balances, one transfer of 1 leaves 0 and \<open>2^53\<close>.\<close>

lemma conservation_bound:
  "map_option (\<lambda>g. (balance (account1 g), balance (account2 g)))
     (transfers [T1] (initial (scan_double 1) (scan_double 1)
        (scan_double 9007199254740992) (scan_double 1))) =
   Some (Double 0, Double 9007199254740992)"
  by code_simp

text \<open>
  Claim C10. From an initial configuration with non-negative balances and positive
  transfer amounts, every sequence of calls runs to its end and leaves both balances
  non-negative. The laws of exact arithmetic used: \<open>x \<le> a\<close> gives \<open>0 \<le> a - x\<close>, and
  \<open>0 \<le> b\<close>, \<open>0 \<le> x\<close> give \<open>0 \<le> b + x\<close>.
\<close>

theorem non_negative:
  fixes b1 a1 b2 a2 :: "'a::linordered_ab_group_add"
  assumes "0 \<le> b1" "0 \<le> b2" "0 < a1" "0 < a2"
  shows "\<exists>g'. transfers ts (initial b1 a1 b2 a2) = Some g' \<and>
           0 \<le> balance (account1 g') \<and> 0 \<le> balance (account2 g')"
  using transfers_invariant [of "initial b1 a1 b2 a2" ts] assms by (auto simp add: initial_def)

theorem non_negative_witness:
  "(0::int) \<le> 100 \<and> (0::int) \<le> 40 \<and> (0::int) < 30 \<and> (0::int) < 40 \<and>
   (\<exists>g'. transfers [T2, T1, T2, T1, T2] (initial (100::int) 30 40 40) = Some g' \<and>
           0 \<le> balance (account1 g') \<and> 0 \<le> balance (account2 g'))"
  using non_negative [of "100::int" 40 30 40 "[T2, T1, T2, T1, T2]"] by simp

section \<open>Properties of the runs of the program\<close>

subsection \<open>Facts about single transitions\<close>

lemma insufficient_text:
  "snprintf 100 ''Insufficient funds in Account %d'' 1 = ''Insufficient funds in Account 1''"
  "snprintf 100 ''Insufficient funds in Account %d'' 2 = ''Insufficient funds in Account 2''"
  by (simp_all add: snprintf_def format_d_def decimal.simps)

lemma store_simps [simp]:
  "is_terminated (store p a g) = is_terminated g"
  "termination_reason (store p a g) = termination_reason g"
  "stdout (store p a g) = stdout g"
  "deref q (store p a g) = (if q = p then a else deref q g)"
  "account1 (store p a g) = (if p = Acc1 then a else account1 g)"
  "account2 (store p a g) = (if p = Acc2 then a else account2 g)"
  by (cases p; cases q; simp)+

lemma lock_SomeD:
  assumes "pthread_mutex_lock t (MutexOf p) g = Some g'"
  shows "g' = store p ((deref p g)\<lparr>mutex := Some t\<rparr>) g" "mutex (deref p g) = None"
  using assms by (simp_all split: option.splits)

lemma unlock_SomeD:
  assumes "pthread_mutex_unlock t (MutexOf p) g = Some g'"
  shows "g' = store p ((deref p g)\<lparr>mutex := None\<rparr>) g" "mutex (deref p g) = Some t"
  using assms by (simp_all split: if_splits)

lemma lock_order_cases:
  "lock_first (MutexOf p) (MutexOf q) = MutexOf (if p = Acc1 then p else q)"
  "lock_second (MutexOf p) (MutexOf q) = MutexOf (if p = Acc1 then q else p)"
  by (simp_all add: lock_first_def lock_second_def)

text \<open>\<open>lock_pair\<close> is its two lock calls, one after the other: it waits where the
  first or the second of them waits.\<close>

lemma lock_pair_steps:
  "lock_pair t m1 m2 g =
     (case pthread_mutex_lock t (lock_first m1 m2) g of
        None \<Rightarrow> Waiting (lock_first m1 m2) g
      | Some g1 \<Rightarrow>
          (case pthread_mutex_lock t (lock_second m1 m2) g1 of
             None \<Rightarrow> Waiting (lock_second m1 m2) g1
           | Some g2 \<Rightarrow> Locked g2))"
  by (auto simp add: lock_pair_def lock_first_def lock_second_def split: option.splits)

declare pthread_mutex_lock.simps [simp del] pthread_mutex_unlock.simps [simp del]
declare store.simps [simp del]

lemma worker_frame:
  fixes g :: "('a::{ord,plus,minus}) globals"
  assumes "worker t p period g = Some (p', g', es, ws)"
  shows "acct_id (account1 g') = acct_id (account1 g)"
    "acct_id (account2 g') = acct_id (account2 g)"
    "transfer_amount (account1 g') = transfer_amount (account1 g)"
    "transfer_amount (account2 g') = transfer_amount (account2 g)"
  using assms
  by (cases p; auto simp add: Let_def lock_order_cases split: option.splits if_splits
        dest!: lock_SomeD(1) unlock_SomeD(1))+

lemma worker_flag:
  fixes g :: "('a::{ord,plus,minus}) globals"
  assumes "worker t p period g = Some (p', g', es, ws)"
  shows "is_terminated g' = is_terminated g \<or> (p = Set_terminated \<and> is_terminated g' = 1)"
  using assms
  by (cases p; auto simp add: Let_def lock_order_cases split: option.splits if_splits
        dest!: lock_SomeD(1) unlock_SomeD(1))

lemma worker_reason:
  fixes g :: "('a::{ord,plus,minus}) globals"
  assumes "worker t p period g = Some (p', g', es, ws)"
    and "acct_id (account1 g) = 1" "acct_id (account2 g) = 2"
  shows "(termination_reason g' = termination_reason g \<and> ws = [] \<and> p' \<noteq> Set_terminated) \<or>
         (p = Write_reason \<and> p' = Set_terminated \<and> valid_reason (termination_reason g') \<and>
          ws = [termination_reason g'])"
  using assms
  by (cases p; cases t; auto simp add: Let_def lock_order_cases insufficient_text valid_reason_def
        split: option.splits if_splits dest!: lock_SomeD(1) unlock_SomeD(1))

lemma run_append: "run (xs @ ys) s = run ys (run xs s)"
  by (induction xs arbitrary: s) simp_all

text \<open>A transition of a worker, as a transition of the program.\<close>

lemma step_WorkerD:
  fixes s :: "('a::{ord,plus,minus}) system"
  assumes "step (Worker t) s = Some s'"
  obtains p' g' es ws where
    "worker t (pc s t) (transfer_period_ms s) (shared s) = Some (p', g', es, ws)"
    "s' = s\<lparr>shared := g', pc := (pc s)(t := p'),
             trace := (trace s)(t := es @ trace s t), reasons := ws @ reasons s\<rparr>"
  using assms by (auto split: option.splits)

subsection \<open>The flag and the reason\<close>

lemma reason_invD:
  assumes "reason_inv s"
  shows "acct_id (account1 (shared s)) = 1" "acct_id (account2 (shared s)) = 2"
    "termination_reason (shared s) = '''' \<or> valid_reason (termination_reason (shared s))"
    "\<forall>r \<in> set (reasons s). valid_reason r"
    "is_terminated (shared s) \<noteq> 0 \<longrightarrow>
        valid_reason (termination_reason (shared s)) \<or> pc_main s = Copy_reason"
    "\<forall>t. pc s t = Set_terminated \<longrightarrow> valid_reason (termination_reason (shared s))"
    "pc_main s \<in> {Copy_reason, Join1, Join2, Report, Finished} \<longrightarrow> is_terminated (shared s) \<noteq> 0"
    "pc_main s = Finished \<longrightarrow> reported s \<noteq> None"
    "\<forall>b1 b2 n1 n2 r. reported s = Some (Final_results b1 b2 n1 n2 r) \<longrightarrow> valid_reason r"
  using assms unfolding reason_inv_def by blast+

lemma reason_invI:
  assumes "acct_id (account1 (shared s)) = 1" "acct_id (account2 (shared s)) = 2"
    "termination_reason (shared s) = '''' \<or> valid_reason (termination_reason (shared s))"
    "\<forall>r \<in> set (reasons s). valid_reason r"
    "is_terminated (shared s) \<noteq> 0 \<longrightarrow>
        valid_reason (termination_reason (shared s)) \<or> pc_main s = Copy_reason"
    "\<forall>t. pc s t = Set_terminated \<longrightarrow> valid_reason (termination_reason (shared s))"
    "pc_main s \<in> {Copy_reason, Join1, Join2, Report, Finished} \<longrightarrow> is_terminated (shared s) \<noteq> 0"
    "pc_main s = Finished \<longrightarrow> reported s \<noteq> None"
    "\<forall>b1 b2 n1 n2 r. reported s = Some (Final_results b1 b2 n1 n2 r) \<longrightarrow> valid_reason r"
  shows "reason_inv s"
  unfolding reason_inv_def using assms by blast


lemma worker_step_reason_inv:
  fixes s :: "('a::{ord,plus,minus}) system"
  assumes w: "worker t (pc s t) (transfer_period_ms s) (shared s) = Some (p', g', es, ws)"
    and inv: "reason_inv s"
  shows "reason_inv (s\<lparr>shared := g', pc := (pc s)(t := p'),
                  trace := (trace s)(t := es @ trace s t), reasons := ws @ reasons s\<rparr>)"
proof -
  note d = reason_invD [OF inv]
  note fr = worker_frame(1,2) [OF w]
  note fl = worker_flag [OF w]
  have at_t: "pc s t = Set_terminated \<longrightarrow> valid_reason (termination_reason (shared s))"
    using d(6) by (rule spec)
  from worker_reason [OF w d(1,2)]
  have facts: "(termination_reason g' = '''' \<or> valid_reason (termination_reason g')) \<and>
    (\<forall>r \<in> set (ws @ reasons s). valid_reason r) \<and>
    (p' = Set_terminated \<longrightarrow> valid_reason (termination_reason g')) \<and>
    (valid_reason (termination_reason (shared s)) \<longrightarrow> valid_reason (termination_reason g'))"
  proof (elim disjE conjE)
    assume a: "termination_reason g' = termination_reason (shared s)" "ws = []" "p' \<noteq> Set_terminated"
    show ?thesis
      unfolding a(1) a(2) using d(3) d(4) a(3) by simp
  next
    assume a: "pc s t = Write_reason" "p' = Set_terminated"
      "valid_reason (termination_reason g')" "ws = [termination_reason g']"
    show ?thesis
      unfolding a(4) using d(4) a(3) by simp
  qed
  then have new_reason: "termination_reason g' = '''' \<or> valid_reason (termination_reason g')"
    and new_reasons: "\<forall>r \<in> set (ws @ reasons s). valid_reason r"
    and set_term: "p' = Set_terminated \<longrightarrow> valid_reason (termination_reason g')"
    and keep: "valid_reason (termination_reason (shared s)) \<longrightarrow> valid_reason (termination_reason g')"
    by simp_all
  have others: "\<forall>t'. ((pc s)(t := p')) t' = Set_terminated \<longrightarrow> valid_reason (termination_reason g')"
  proof (intro allI impI)
    fix t' assume a: "((pc s)(t := p')) t' = Set_terminated"
    show "valid_reason (termination_reason g')"
    proof (cases "t' = t")
      case True
      with a set_term show ?thesis by simp
    next
      case False
      with a have "pc s t' = Set_terminated" by simp
      with d(6) have "valid_reason (termination_reason (shared s))" by blast
      with keep show ?thesis by simp
    qed
  qed
  have flag_reason: "is_terminated g' \<noteq> 0 \<longrightarrow>
      valid_reason (termination_reason g') \<or> pc_main s = Copy_reason"
  proof (cases "is_terminated g' = is_terminated (shared s)")
    case True
    show ?thesis unfolding True using d(5) keep by blast
  next
    case False
    with fl have "pc s t = Set_terminated" by simp
    with at_t keep show ?thesis by blast
  qed
  have flag_keep: "is_terminated (shared s) \<noteq> 0 \<longrightarrow> is_terminated g' \<noteq> 0"
    using fl by (elim disjE) simp_all
  have main_flag: "pc_main s \<in> {Copy_reason, Join1, Join2, Report, Finished} \<longrightarrow>
      is_terminated g' \<noteq> 0"
    using d(7) flag_keep by simp
  show ?thesis
  proof (rule reason_invI)
  qed (use fr d(1,2,8,9) new_reason new_reasons flag_reason others main_flag in simp_all)
qed

lemma main_reason_inv:
  assumes m: "main_step (pc_main s) s = Some s'" and inv: "reason_inv s"
  shows "reason_inv s'"
proof -
  note d = reason_invD [OF inv]
  show ?thesis
  proof (cases "pc_main s")
    case Sleep
    with m have s': "s' = s\<lparr>pc_main := Check\<rparr>" by simp
    show ?thesis unfolding s' by (rule reason_invI) (use d Sleep in simp_all)
  next
    case Check
    show ?thesis
    proof (cases "is_terminated (shared s) = 0")
      case True
      with m Check have s': "s' = s\<lparr>pc_main := Set_flag\<rparr>" by simp
      show ?thesis unfolding s' by (rule reason_invI) (use d Check True in simp_all)
    next
      case False
      with m Check have s': "s' = s\<lparr>pc_main := Join1\<rparr>" by simp
      show ?thesis unfolding s' by (rule reason_invI) (use d Check False in simp_all)
    qed
  next
    case Set_flag
    with m have s': "s' = s\<lparr>shared := (shared s)\<lparr>is_terminated := 1\<rparr>, pc_main := Copy_reason\<rparr>"
      by simp
    show ?thesis unfolding s' by (rule reason_invI) (use d Set_flag in simp_all)
  next
    case Copy_reason
    with m have s': "s' = s\<lparr>shared := (shared s)\<lparr>termination_reason := ''Global deadline expired''\<rparr>,
             reasons := ''Global deadline expired'' # reasons s, pc_main := Join1\<rparr>"
      by simp
    have v: "valid_reason ''Global deadline expired''" by (simp add: valid_reason_def)
    show ?thesis unfolding s' by (rule reason_invI) (use d Copy_reason v in simp_all)
  next
    case Join1
    with m have s': "s' = s\<lparr>pc_main := Join2\<rparr>" by (simp split: if_splits)
    show ?thesis unfolding s' by (rule reason_invI) (use d Join1 in simp_all)
  next
    case Join2
    with m have s': "s' = s\<lparr>pc_main := Report\<rparr>" by (simp split: if_splits)
    show ?thesis unfolding s' by (rule reason_invI) (use d Join2 in simp_all)
  next
    case Report
    with m have s': "s' = s\<lparr>reported := Some (Final_results (balance (account1 (shared s)))
                  (balance (account2 (shared s)))
                  (successful_transfers (account1 (shared s)))
                  (successful_transfers (account2 (shared s)))
                  (termination_reason (shared s))), pc_main := Finished\<rparr>"
      by (simp add: Let_def)
    from d(5,7) Report have v: "valid_reason (termination_reason (shared s))" by simp
    show ?thesis unfolding s' by (rule reason_invI) (use d Report v in simp_all)
  next
    case Finished
    with m show ?thesis by simp
  qed
qed

lemma step_reason_inv:
  fixes s :: "('a::{ord,plus,minus}) system"
  assumes "step a s = Some s'" "reason_inv s"
  shows "reason_inv s'"
proof (cases a)
  case (Worker t)
  with assms(1) have "step (Worker t) s = Some s'" by simp
  then obtain p' g' es ws where
    w: "worker t (pc s t) (transfer_period_ms s) (shared s) = Some (p', g', es, ws)"
    and s': "s' = s\<lparr>shared := g', pc := (pc s)(t := p'),
                  trace := (trace s)(t := es @ trace s t), reasons := ws @ reasons s\<rparr>"
    by (rule step_WorkerD)
  show ?thesis unfolding s' by (rule worker_step_reason_inv [OF w assms(2)])
next
  case Main_thread
  with assms show ?thesis by (simp add: main_reason_inv)
qed

lemma run_reason_inv:
  fixes s :: "('a::{ord,plus,minus}) system"
  shows "reason_inv s \<Longrightarrow> reason_inv (run as s)"
proof (induction as arbitrary: s)
  case Nil
  then show ?case by simp
next
  case (Cons a as)
  show ?case
  proof (cases "step a s")
    case None
    with Cons show ?thesis by simp
  next
    case (Some s')
    with Cons step_reason_inv [OF Some Cons.prems] show ?thesis by simp
  qed
qed

lemma start_reason_inv: "reason_inv (start b1 a1 b2 a2 period deadline)"
  by (rule reason_invI) (simp_all add: start_def initial_def)

lemma step_flag:
  fixes s :: "('a::{ord,plus,minus}) system"
  assumes "step a s = Some s'" "is_terminated (shared s) \<noteq> 0"
  shows "is_terminated (shared s') \<noteq> 0"
proof (cases a)
  case (Worker t)
  with assms(1) have "step (Worker t) s = Some s'" by simp
  then obtain p' g' es ws where
    w: "worker t (pc s t) (transfer_period_ms s) (shared s) = Some (p', g', es, ws)"
    and s': "s' = s\<lparr>shared := g', pc := (pc s)(t := p'),
                  trace := (trace s)(t := es @ trace s t), reasons := ws @ reasons s\<rparr>"
    by (rule step_WorkerD)
  from worker_flag [OF w] assms(2) show ?thesis unfolding s' by (elim disjE) simp_all
next
  case Main_thread
  with assms show ?thesis by (cases "pc_main s") (auto split: if_splits simp add: Let_def)
qed


subsection \<open>The locks\<close>

lemma lock_SomeD2:
  assumes "pthread_mutex_lock t (MutexOf p) g = Some g'"
  shows "g' = store p ((deref p g)\<lparr>mutex := Some t\<rparr>) g \<and> mutex (deref p g) = None"
  using assms by (simp add: pthread_mutex_lock.simps split: option.splits)

lemma unlock_SomeD2:
  assumes "pthread_mutex_unlock t (MutexOf p) g = Some g'"
  shows "g' = store p ((deref p g)\<lparr>mutex := None\<rparr>) g \<and> mutex (deref p g) = Some t"
  using assms by (simp add: pthread_mutex_unlock.simps split: if_splits)

lemma worker_locks:
  fixes g :: "('a::{ord,plus,minus}) globals"
  assumes "worker t p period g = Some (p', g', es, ws)"
    and "(mutex (account1 g) = Some t) = holds t p Acc1"
    and "(mutex (account2 g) = Some t) = holds t p Acc2"
  shows "(mutex (account1 g') = Some t) = holds t p' Acc1"
    and "(mutex (account2 g') = Some t) = holds t p' Acc2"
    and "t' \<noteq> t \<Longrightarrow> (mutex (account1 g') = Some t') = (mutex (account1 g) = Some t')"
    and "t' \<noteq> t \<Longrightarrow> (mutex (account2 g') = Some t') = (mutex (account2 g) = Some t')"
  using assms
  by (cases p; cases t;
      auto simp add: Let_def lock_order_cases split: option.splits if_splits
        dest!: lock_SomeD2 unlock_SomeD2)+

lemma main_step_frame:
  assumes "main_step p s = Some s'"
  shows "account1 (shared s') = account1 (shared s)" "account2 (shared s') = account2 (shared s)"
    "pc s' = pc s" "trace s' = trace s" "transfer_period_ms s' = transfer_period_ms s"
  using assms by (cases p; auto simp add: Let_def split: if_splits)+

lemma lock_invD:
  assumes "lock_inv s"
  shows "(mutex (account1 (shared s)) = Some t) = holds t (pc s t) Acc1"
    "(mutex (account2 (shared s)) = Some t) = holds t (pc s t) Acc2"
  using assms by (simp_all add: lock_inv_def)

lemma step_lock_inv:
  fixes s :: "('a::{ord,plus,minus}) system"
  assumes "step a s = Some s'" "lock_inv s"
  shows "lock_inv s'"
proof (cases a)
  case (Worker t)
  with assms(1) have "step (Worker t) s = Some s'" by simp
  then obtain p' g' es ws where
    w: "worker t (pc s t) (transfer_period_ms s) (shared s) = Some (p', g', es, ws)"
    and s': "s' = s\<lparr>shared := g', pc := (pc s)(t := p'),
                  trace := (trace s)(t := es @ trace s t), reasons := ws @ reasons s\<rparr>"
    by (rule step_WorkerD)
  note own = lock_invD [OF assms(2), of t]
  note new = worker_locks [OF w own]
  have "(mutex (account1 g') = Some u) = holds u (((pc s)(t := p')) u) Acc1" for u
  proof (cases "u = t")
    case True
    with new(1) show ?thesis by simp
  next
    case False
    with new(3) [of u] lock_invD(1) [OF assms(2), of u] show ?thesis by simp
  qed
  moreover have "(mutex (account2 g') = Some u) = holds u (((pc s)(t := p')) u) Acc2" for u
  proof (cases "u = t")
    case True
    with new(2) show ?thesis by simp
  next
    case False
    with new(4) [of u] lock_invD(2) [OF assms(2), of u] show ?thesis by simp
  qed
  ultimately show ?thesis unfolding s' lock_inv_def by simp
next
  case Main_thread
  with assms(1) have m: "main_step (pc_main s) s = Some s'" by simp
  from main_step_frame(1-3) [OF m] assms(2) show ?thesis by (simp add: lock_inv_def)
qed

lemma run_lock_inv:
  fixes s :: "('a::{ord,plus,minus}) system"
  shows "lock_inv s \<Longrightarrow> lock_inv (run as s)"
proof (induction as arbitrary: s)
  case Nil
  then show ?case by simp
next
  case (Cons a as)
  show ?case
  proof (cases "step a s")
    case None
    with Cons show ?thesis by simp
  next
    case (Some s')
    with Cons step_lock_inv [OF Some Cons.prems] show ?thesis by simp
  qed
qed

lemma start_lock_inv: "lock_inv (start b1 a1 b2 a2 period deadline)"
  by (simp add: lock_inv_def start_def initial_def)

text \<open>In every run from the start, each mutex names as its owner the worker that is
  between the lock call and the unlock call on it, and no owner otherwise.\<close>

lemma locks_in_runs:
  fixes b1 a1 b2 a2 :: "'a::{ord,plus,minus}"
  shows "(mutex (account1 (shared (run xs (start b1 a1 b2 a2 period deadline)))) = Some t) =
           holds t (pc (run xs (start b1 a1 b2 a2 period deadline)) t) Acc1"
    and "(mutex (account2 (shared (run xs (start b1 a1 b2 a2 period deadline)))) = Some t) =
           holds t (pc (run xs (start b1 a1 b2 a2 period deadline)) t) Acc2"
  using lock_invD [OF run_lock_inv [OF start_lock_inv]] by blast+


subsection \<open>The writes of the reason\<close>







subsection \<open>The termination state\<close>




subsection \<open>The loop of a worker\<close>









section \<open>No deadlock, and the end of the program\<close>

text \<open>
  Time is not part of the model: a \<open>sleep\<close> or a \<open>nanosleep\<close> is a transition that can be
  taken at any moment, and the turns of a schedule stand for the moments at which the
  scheduler lets a thread run. What can be said without a clock, and is proved in this
  section: in no reachable state are all threads stuck; from every reachable state the
  program can reach its end in at most 30 turns; once the flag is set the three threads
  together make at most 27 more transitions, whatever the schedule; and at the end both
  workers have returned and the final report is printed.
\<close>

subsection \<open>No deadlock\<close>

text \<open>A worker that is not at the end and cannot move is waiting for a mutex that
  another thread owns.\<close>

lemma worker_blocked:
  fixes g :: "('a::{ord,plus,minus}) globals"
  assumes "worker t p period g = None" "p \<noteq> Exited"
    and "(mutex (account1 g) = Some t) = holds t p Acc1"
    and "(mutex (account2 g) = Some t) = holds t p Acc2"
  shows "(p = Lock_first \<and> (\<exists>u. u \<noteq> t \<and> mutex (account1 g) = Some u)) \<or>
         (p = Lock_second \<and> (\<exists>u. u \<noteq> t \<and> mutex (account2 g) = Some u))"
  using assms
  by (cases p; cases t)
     (auto simp add: Let_def lock_order_cases pthread_mutex_lock.simps pthread_mutex_unlock.simps
        split: option.splits if_splits)

lemma step_Worker_None:
  fixes s :: "('a::{ord,plus,minus}) system"
  shows "(step (Worker t) s = None) = (worker t (pc s t) (transfer_period_ms s) (shared s) = None)"
  by (auto split: option.splits)

text \<open>
  No deadlock between the workers: while one of them has not returned, one of them can
  move. A worker waiting at its first lock call owns nothing, so a worker waiting at its
  second lock call, for the mutex of account 2, cannot wait for a worker that waits: the
  owner of that mutex is past both lock calls and can move.
\<close>

lemma some_worker_moves:
  fixes s :: "('a::{ord,plus,minus}) system"
  assumes inv: "lock_inv s" and live: "pc s t \<noteq> Exited"
  shows "\<exists>u. step (Worker u) s \<noteq> None"
proof (rule ccontr)
  assume "\<not> (\<exists>u. step (Worker u) s \<noteq> None)"
  then have "step (Worker u) s = None" for u by blast
  then have stuck: "worker u (pc s u) (transfer_period_ms s) (shared s) = None" for u
    by (simp only: step_Worker_None)
  have waits: "pc s u \<noteq> Exited \<Longrightarrow>
      (pc s u = Lock_first \<and> (\<exists>v. v \<noteq> u \<and> mutex (account1 (shared s)) = Some v)) \<or>
      (pc s u = Lock_second \<and> (\<exists>v. v \<noteq> u \<and> mutex (account2 (shared s)) = Some v))" for u
    using worker_blocked [OF stuck [of u] _ lock_invD [OF inv, of u]] by blast
  have no2: "mutex (account2 (shared s)) \<noteq> Some v" if "pc s v = Lock_first \<or> pc s v = Lock_second" for v
    using that lock_invD(2) [OF inv, of v] by auto
  have no1: "mutex (account1 (shared s)) \<noteq> Some v" if "pc s v = Lock_first" for v
    using that lock_invD(1) [OF inv, of v] by auto
  have not_exited: "pc s v \<noteq> Exited" if "mutex (account1 (shared s)) = Some v \<or> mutex (account2 (shared s)) = Some v" for v
    using that lock_invD [OF inv, of v] by auto
  from waits [OF live] show False
  proof (elim disjE conjE exE)
    fix v assume t1: "pc s t = Lock_first" and v: "v \<noteq> t" "mutex (account1 (shared s)) = Some v"
    from v(2) not_exited have "pc s v \<noteq> Exited" by blast
    from waits [OF this] no1 [of v] v(2) have vpc: "pc s v = Lock_second"
      and "\<exists>x. x \<noteq> v \<and> mutex (account2 (shared s)) = Some x" by blast+
    then obtain x where x: "mutex (account2 (shared s)) = Some x" by blast
    from x not_exited have "pc s x \<noteq> Exited" by blast
    from waits [OF this] no2 [of x] x show False by blast
  next
    fix v assume "pc s t = Lock_second" and v: "v \<noteq> t" "mutex (account2 (shared s)) = Some v"
    from v(2) not_exited have "pc s v \<noteq> Exited" by blast
    from waits [OF this] no2 [of v] v(2) show False by blast
  qed
qed

text \<open>\<open>main\<close> waits only in its two joins, for a worker that has not returned.\<close>

lemma no_deadlock_state:
  fixes s :: "('a::{ord,plus,minus}) system"
  assumes inv: "lock_inv s" and live: "pc_main s \<noteq> Finished"
  shows "\<exists>a. step a s \<noteq> None"
proof (cases "pc_main s = Join1 \<and> pc s T1 \<noteq> Exited \<or> pc_main s = Join2 \<and> pc s T2 \<noteq> Exited")
  case True
  then obtain t where "pc s t \<noteq> Exited" by blast
  from some_worker_moves [OF inv this] show ?thesis by blast
next
  case False
  with live have "main_step (pc_main s) s \<noteq> None"
    by (cases "pc_main s") (auto simp add: Let_def)
  then have "step Main_thread s \<noteq> None" by simp
  then show ?thesis by blast
qed

text \<open>In every run from the start, as long as \<open>main\<close> has not finished, some thread
  can move.\<close>

lemma no_deadlock:
  fixes b1 a1 b2 a2 :: "'a::{ord,plus,minus}"
  assumes "pc_main (run xs (start b1 a1 b2 a2 period deadline)) \<noteq> Finished"
  shows "\<exists>a. step a (run xs (start b1 a1 b2 a2 period deadline)) \<noteq> None"
  using no_deadlock_state [OF run_lock_inv [OF start_lock_inv] assms] .

subsection \<open>A bound on what follows the flag\<close>

lemma worker_rank:
  fixes g :: "('a::{ord,plus,minus}) globals"
  assumes "worker t p period g = Some (p', g', es, ws)" "is_terminated g \<noteq> 0"
  shows "rank p' < rank p"
  using assms by (cases p) (auto simp add: Let_def split: option.splits if_splits)

lemma main_rank:
  assumes "main_step p s = Some s'" "pc_main s = p"
  shows "rank_main (pc_main s') < rank_main p \<and> pc s' = pc s"
  using assms by (cases p) (auto simp add: Let_def split: if_splits)

lemma rank_le: "rank p \<le> 10"
  by (cases p) simp_all

lemma rank_main_le: "rank_main p \<le> 7"
  by (cases p) simp_all

lemma potential_le: "potential s \<le> 27"
  using rank_le [of "pc s T1"] rank_le [of "pc s T2"] rank_main_le [of "pc_main s"]
  by (simp add: potential_def)

lemma step_potential:
  fixes s :: "('a::{ord,plus,minus}) system"
  assumes "step a s = Some s'" "is_terminated (shared s) \<noteq> 0"
  shows "potential s' < potential s"
proof (cases a)
  case (Worker t)
  with assms(1) have "step (Worker t) s = Some s'" by simp
  then obtain p' g' es ws where
    w: "worker t (pc s t) (transfer_period_ms s) (shared s) = Some (p', g', es, ws)"
    and s': "s' = s\<lparr>shared := g', pc := (pc s)(t := p'),
                  trace := (trace s)(t := es @ trace s t), reasons := ws @ reasons s\<rparr>"
    by (rule step_WorkerD)
  from worker_rank [OF w assms(2)] show ?thesis
    unfolding s' potential_def by (cases t) simp_all
next
  case Main_thread
  with assms(1) have m: "main_step (pc_main s) s = Some s'" by simp
  from main_rank [OF m refl] show ?thesis by (simp add: potential_def)
qed

lemma moves_bounded:
  fixes s :: "('a::{ord,plus,minus}) system"
  shows "is_terminated (shared s) \<noteq> 0 \<Longrightarrow> moves as s \<le> potential s"
proof (induction as arbitrary: s)
  case Nil
  then show ?case by simp
next
  case (Cons a as)
  show ?case
  proof (cases "step a s")
    case None
    with Cons show ?thesis by simp
  next
    case (Some s')
    from step_flag [OF Some Cons.prems] have "moves as s' \<le> potential s'" by (rule Cons.IH)
    with step_potential [OF Some Cons.prems] Some show ?thesis by simp
  qed
qed

text \<open>In every run from the start, once the flag is set, the threads move in at most
  27 turns of any continuation.\<close>

lemma bounded_after_flag:
  fixes b1 a1 b2 a2 :: "'a::{ord,plus,minus}"
  assumes "is_terminated (shared (run xs (start b1 a1 b2 a2 period deadline))) \<noteq> 0"
  shows "moves ys (run xs (start b1 a1 b2 a2 period deadline)) \<le> 27"
  using moves_bounded [OF assms, of ys] potential_le [of "run xs (start b1 a1 b2 a2 period deadline)"]
  by simp

subsection \<open>The end of the program\<close>

text \<open>\<open>main\<close> can always get the flag set: its sleep, its test and its assignment wait
  for nothing.\<close>

lemma main_sets_flag:
  fixes s :: "('a::{ord,plus,minus}) system"
  assumes "reason_inv s"
  shows "\<exists>ys. length ys \<le> 3 \<and> is_terminated (shared (run ys s)) \<noteq> 0"
proof (cases "is_terminated (shared s) = 0")
  case False
  then have "length ([] :: actor list) \<le> 3 \<and> is_terminated (shared (run [] s)) \<noteq> 0" by simp
  then show ?thesis by blast
next
  case True
  with reason_invD(7) [OF assms] consider "pc_main s = Sleep" | "pc_main s = Check" | "pc_main s = Set_flag"
    by (cases "pc_main s") simp_all
  then show ?thesis
  proof cases
    case 1
    with True have "length (replicate 3 Main_thread) \<le> 3 \<and>
        is_terminated (shared (run (replicate 3 Main_thread) s)) \<noteq> 0"
      by (simp add: numeral_3_eq_3)
    then show ?thesis by blast
  next
    case 2
    with True have "length (replicate 2 Main_thread) \<le> 3 \<and>
        is_terminated (shared (run (replicate 2 Main_thread) s)) \<noteq> 0"
      by (simp add: numeral_2_eq_2)
    then show ?thesis by blast
  next
    case 3
    with True have "length [Main_thread] \<le> 3 \<and> is_terminated (shared (run [Main_thread] s)) \<noteq> 0"
      by simp
    then show ?thesis by blast
  qed
qed

text \<open>With the flag set, a schedule that always picks a thread that can move reaches the
  end.\<close>

lemma finish_from_flag:
  fixes s :: "('a::{ord,plus,minus}) system"
  assumes "lock_inv s" "is_terminated (shared s) \<noteq> 0"
  shows "\<exists>ys. length ys \<le> potential s \<and> pc_main (run ys s) = Finished"
  using assms
proof (induction "potential s" arbitrary: s rule: less_induct)
  case less
  show ?case
  proof (cases "pc_main s = Finished")
    case True
    then have "length ([] :: actor list) \<le> potential s \<and> pc_main (run [] s) = Finished" by simp
    then show ?thesis by blast
  next
    case False
    from no_deadlock_state [OF less.prems(1) False] obtain a s' where st: "step a s = Some s'"
      by auto
    note smaller = step_potential [OF st less.prems(2)]
    from less.hyps [OF smaller step_lock_inv [OF st less.prems(1)] step_flag [OF st less.prems(2)]]
    obtain ys where ys: "length ys \<le> potential s'" "pc_main (run ys s') = Finished" by blast
    from ys smaller st have "length (a # ys) \<le> potential s \<and> pc_main (run (a # ys) s) = Finished"
      by simp
    then show ?thesis by blast
  qed
qed

lemma step_join_inv:
  fixes s :: "('a::{ord,plus,minus}) system"
  assumes "step a s = Some s'" "join_inv s"
  shows "join_inv s'"
proof (cases a)
  case (Worker t)
  with assms(1) have "step (Worker t) s = Some s'" by simp
  then obtain p' g' es ws where
    w: "worker t (pc s t) (transfer_period_ms s) (shared s) = Some (p', g', es, ws)"
    and s': "s' = s\<lparr>shared := g', pc := (pc s)(t := p'),
                  trace := (trace s)(t := es @ trace s t), reasons := ws @ reasons s\<rparr>"
    by (rule step_WorkerD)
  from w have "pc s t \<noteq> Exited" by auto
  with assms(2) show ?thesis unfolding s' join_inv_def by (cases t) auto
next
  case Main_thread
  with assms(1) have m: "main_step (pc_main s) s = Some s'" by simp
  with assms(2) show ?thesis
    by (cases "pc_main s") (auto simp add: join_inv_def Let_def split: if_splits)
qed

lemma run_join_inv:
  fixes s :: "('a::{ord,plus,minus}) system"
  shows "join_inv s \<Longrightarrow> join_inv (run as s)"
proof (induction as arbitrary: s)
  case Nil
  then show ?case by simp
next
  case (Cons a as)
  show ?case
  proof (cases "step a s")
    case None
    with Cons show ?thesis by simp
  next
    case (Some s')
    with Cons step_join_inv [OF Some Cons.prems] show ?thesis by simp
  qed
qed

lemma start_join_inv: "join_inv (start b1 a1 b2 a2 period deadline)"
  by (simp add: join_inv_def start_def)

text \<open>Every run from the start can be continued to the end of the program, in at most
  30 turns.\<close>

lemma can_finish:
  fixes b1 a1 b2 a2 :: "'a::{ord,plus,minus}"
  shows "\<exists>ys. length ys \<le> 30 \<and>
           pc_main (run (xs @ ys) (start b1 a1 b2 a2 period deadline)) = Finished"
proof -
  let ?s = "run xs (start b1 a1 b2 a2 period deadline)"
  have "reason_inv ?s" by (rule run_reason_inv [OF start_reason_inv])
  from main_sets_flag [OF this] obtain ys1 where
    ys1: "length ys1 \<le> 3" "is_terminated (shared (run ys1 ?s)) \<noteq> 0" by blast
  have "lock_inv (run ys1 ?s)" by (intro run_lock_inv start_lock_inv)
  from finish_from_flag [OF this ys1(2)] obtain ys2 where
    ys2: "length ys2 \<le> potential (run ys1 ?s)" "pc_main (run ys2 (run ys1 ?s)) = Finished"
    by blast
  from ys1(1) ys2(1) potential_le [of "run ys1 ?s"] have "length (ys1 @ ys2) \<le> 30" by simp
  moreover from ys2(2) have "pc_main (run (xs @ ys1 @ ys2) (start b1 a1 b2 a2 period deadline)) = Finished"
    by (simp add: run_append)
  ultimately show ?thesis by blast
qed

text \<open>When \<open>main\<close> has finished, no thread can move, both workers have returned and the
  final report is printed.\<close>

lemma finished_is_final:
  fixes b1 a1 b2 a2 :: "'a::{ord,plus,minus}"
  assumes "pc_main (run xs (start b1 a1 b2 a2 period deadline)) = Finished"
  shows "step a (run xs (start b1 a1 b2 a2 period deadline)) = None"
    and "pc (run xs (start b1 a1 b2 a2 period deadline)) t = Exited"
    and "reported (run xs (start b1 a1 b2 a2 period deadline)) \<noteq> None"
proof -
  let ?s = "run xs (start b1 a1 b2 a2 period deadline)"
  have j: "join_inv ?s" by (intro run_join_inv start_join_inv)
  with assms show ex: "pc ?s t = Exited" for t by (cases t) (simp_all add: join_inv_def)
  from assms ex show "step a ?s = None" by (cases a) simp_all
  have "reason_inv ?s" by (rule run_reason_inv [OF start_reason_inv])
  from reason_invD(8) [OF this] assms show "reported ?s \<noteq> None" by simp
qed

section \<open>The money in the runs of the program\<close>

text \<open>
  The two properties of sequences of calls, for the threads running step by step, in
  every interleaving. Between the two assignments of a transfer the amount is out of the
  source and not yet in the destination, so the sum counts it as pending.
\<close>

lemma worker_money:
  fixes g :: "('a::linordered_ab_group_add) globals"
  assumes "worker t p period g = Some (p', g', es, ws)"
  shows "balance (account1 g') + balance (account2 g') + pending t p' g' =
         balance (account1 g) + balance (account2 g) + pending t p g"
  using assms
  by (cases p; cases t)
     (auto simp add: Let_def lock_order_cases pending_def store.simps
        split: option.splits if_splits dest!: lock_SomeD(1) unlock_SomeD(1))

lemma worker_pending_other:
  fixes g :: "('a::linordered_ab_group_add) globals"
  assumes "worker t p period g = Some (p', g', es, ws)"
  shows "pending u q g' = pending u q g"
  using worker_frame(3,4) [OF assms] by (cases u) (simp_all add: pending_def)

lemma step_money_inv:
  fixes s :: "('a::linordered_ab_group_add) system"
  assumes "step a s = Some s'" "money_inv sum0 s"
  shows "money_inv sum0 s'"
proof (cases a)
  case (Worker t)
  with assms(1) have "step (Worker t) s = Some s'" by simp
  then obtain p' g' es ws where
    w: "worker t (pc s t) (transfer_period_ms s) (shared s) = Some (p', g', es, ws)"
    and s': "s' = s\<lparr>shared := g', pc := (pc s)(t := p'),
                  trace := (trace s)(t := es @ trace s t), reasons := ws @ reasons s\<rparr>"
    by (rule step_WorkerD)
  from worker_money [OF w]
  have own: "balance (account1 g') + balance (account2 g') =
      balance (account1 (shared s)) + balance (account2 (shared s)) +
        pending t (pc s t) (shared s) - pending t p' g'"
    by (simp add: algebra_simps)
  note other = worker_pending_other [OF w]
  show ?thesis
  proof (cases t)
    case T1
    from assms(2) show ?thesis
      unfolding s' money_inv_def
      by (simp add: own other [of T2 "pc s T2"] T1 algebra_simps)
  next
    case T2
    from assms(2) show ?thesis
      unfolding s' money_inv_def
      by (simp add: own other [of T1 "pc s T1"] T2 algebra_simps)
  qed
next
  case Main_thread
  with assms(1) have m: "main_step (pc_main s) s = Some s'" by simp
  have "pending u q (shared s') = pending u q (shared s)" for u q
    using main_step_frame(1,2) [OF m] by (cases u) (simp_all add: pending_def)
  with main_step_frame(1-3) [OF m] assms(2) show ?thesis
    by (simp add: money_inv_def)
qed

lemma run_money_inv:
  fixes s :: "('a::linordered_ab_group_add) system"
  shows "money_inv sum0 s \<Longrightarrow> money_inv sum0 (run as s)"
proof (induction as arbitrary: s)
  case Nil
  then show ?case by simp
next
  case (Cons a as)
  show ?case
  proof (cases "step a s")
    case None
    with Cons show ?thesis by simp
  next
    case (Some s')
    with Cons step_money_inv [OF Some Cons.prems] show ?thesis by simp
  qed
qed

lemma start_money_inv:
  fixes b1 :: "'a::linordered_ab_group_add"
  shows "money_inv (b1 + b2) (start b1 a1 b2 a2 period deadline)"
  by (simp add: money_inv_def start_def initial_def pending_def)

text \<open>In every run from the start, whenever no worker is between the two assignments of
  a transfer, the balances add up to the sum of the initial balances.\<close>

lemma balances_sum_in_runs:
  fixes b1 a1 b2 a2 :: "'a::linordered_ab_group_add"
  assumes "pc (run xs (start b1 a1 b2 a2 period deadline)) T1 \<noteq> Add"
    "pc (run xs (start b1 a1 b2 a2 period deadline)) T2 \<noteq> Add"
  shows "balance (account1 (shared (run xs (start b1 a1 b2 a2 period deadline)))) +
         balance (account2 (shared (run xs (start b1 a1 b2 a2 period deadline)))) = b1 + b2"
  using run_money_inv [OF start_money_inv, of b1 b2 xs a1 a2 period deadline] assms
  by (simp add: money_inv_def pending_def)

lemma worker_funds:
  fixes g :: "('a::linordered_ab_group_add) globals"
  assumes "worker t p period g = Some (p', g', es, ws)"
    and "0 \<le> transfer_amount (account1 g)" "0 \<le> transfer_amount (account2 g)"
    and "0 \<le> balance (account1 g)" "0 \<le> balance (account2 g)"
    and "p = Subtract \<longrightarrow> transfer_amount (deref (source_of t) g) \<le> balance (deref (source_of t) g)"
  shows "0 \<le> balance (account1 g') \<and> 0 \<le> balance (account2 g')"
    and "p' = Subtract \<longrightarrow> transfer_amount (deref (source_of t) g') \<le> balance (deref (source_of t) g')"
    and "balance (deref (dest_of t) g) \<le> balance (deref (dest_of t) g')"
  using assms
  by (cases p; cases t;
      auto simp add: Let_def lock_order_cases store.simps not_less
        split: option.splits if_splits dest!: lock_SomeD(1) unlock_SomeD(1))+

lemma source_of_other: "u \<noteq> t \<Longrightarrow> source_of u = dest_of t"
  by (cases u; cases t) simp_all

lemma step_funds_inv:
  fixes s :: "('a::linordered_ab_group_add) system"
  assumes "step a s = Some s'" "funds_inv s"
  shows "funds_inv s'"
proof (cases a)
  case (Worker t)
  with assms(1) have "step (Worker t) s = Some s'" by simp
  then obtain p' g' es ws where
    w: "worker t (pc s t) (transfer_period_ms s) (shared s) = Some (p', g', es, ws)"
    and s': "s' = s\<lparr>shared := g', pc := (pc s)(t := p'),
                  trace := (trace s)(t := es @ trace s t), reasons := ws @ reasons s\<rparr>"
    by (rule step_WorkerD)
  from assms(2) have amt: "0 \<le> transfer_amount (account1 (shared s))"
      "0 \<le> transfer_amount (account2 (shared s))"
    and bal: "0 \<le> balance (account1 (shared s))" "0 \<le> balance (account2 (shared s))"
    and sub: "\<And>u. pc s u = Subtract \<longrightarrow>
        transfer_amount (deref (source_of u) (shared s)) \<le> balance (deref (source_of u) (shared s))"
    by (simp_all add: funds_inv_def)
  note new = worker_funds [OF w amt bal sub [of t]]
  note fr = worker_frame(3,4) [OF w]
  have amt_same: "transfer_amount (deref q g') = transfer_amount (deref q (shared s))" for q
    using fr by (cases q) simp_all
  have "((pc s)(t := p')) u = Subtract \<longrightarrow>
        transfer_amount (deref (source_of u) g') \<le> balance (deref (source_of u) g')" for u
  proof (cases "u = t")
    case True
    with new(2) show ?thesis by simp
  next
    case False
    show ?thesis
    proof
      assume "((pc s)(t := p')) u = Subtract"
      with False have "pc s u = Subtract" by simp
      with sub [of u] have "transfer_amount (deref (source_of u) (shared s))
          \<le> balance (deref (source_of u) (shared s))" by simp
      also have "\<dots> \<le> balance (deref (source_of u) g')"
        using new(3) source_of_other [OF False] by simp
      finally show "transfer_amount (deref (source_of u) g') \<le> balance (deref (source_of u) g')"
        by (simp add: amt_same)
    qed
  qed
  with new(1) fr amt show ?thesis unfolding s' funds_inv_def by simp
next
  case Main_thread
  with assms(1) have m: "main_step (pc_main s) s = Some s'" by simp
  have "deref q (shared s') = deref q (shared s)" for q
    using main_step_frame(1,2) [OF m] by (cases q) simp_all
  with main_step_frame(1-3) [OF m] assms(2) show ?thesis
    by (simp add: funds_inv_def)
qed

lemma run_funds_inv:
  fixes s :: "('a::linordered_ab_group_add) system"
  shows "funds_inv s \<Longrightarrow> funds_inv (run as s)"
proof (induction as arbitrary: s)
  case Nil
  then show ?case by simp
next
  case (Cons a as)
  show ?case
  proof (cases "step a s")
    case None
    with Cons show ?thesis by simp
  next
    case (Some s')
    with Cons step_funds_inv [OF Some Cons.prems] show ?thesis by simp
  qed
qed

text \<open>In every run from a start with non-negative balances and positive amounts, both
  balances are non-negative in every state.\<close>

lemma balances_non_negative_in_runs:
  fixes b1 a1 b2 a2 :: "'a::linordered_ab_group_add"
  assumes "0 \<le> b1" "0 \<le> b2" "0 < a1" "0 < a2"
  shows "0 \<le> balance (account1 (shared (run xs (start b1 a1 b2 a2 period deadline)))) \<and>
         0 \<le> balance (account2 (shared (run xs (start b1 a1 b2 a2 period deadline))))"
proof -
  from assms have "funds_inv (start b1 a1 b2 a2 period deadline)"
    by (simp add: funds_inv_def start_def initial_def less_imp_le)
  from run_funds_inv [OF this, of xs] show ?thesis by (simp add: funds_inv_def)
qed

section \<open>One call, step by step\<close>

text \<open>
  The two descriptions of a call agree: a worker that runs from its first lock call with
  both mutexes free and no other thread in between arrives at its return with the
  result and the globals of \<open>transfer_funds\<close>, after 5 transitions when the flag is
  set, 8 when the funds are insufficient, 10 on success.
\<close>

lemma globals_shape:
  assumes "mutex (account1 g) = None" "mutex (account2 g) = None"
  obtains it tr x1 y1 n1 i1 x2 y2 n2 i2 out where
    "g = \<lparr>is_terminated = it, termination_reason = tr,
          account1 = \<lparr>balance = x1, transfer_amount = y1, successful_transfers = n1,
                      mutex = None, acct_id = i1\<rparr>,
          account2 = \<lparr>balance = x2, transfer_amount = y2, successful_transfers = n2,
                      mutex = None, acct_id = i2\<rparr>,
          stdout = out\<rparr>"
proof -
  obtain it tr acc1 acc2 out where g: "g = \<lparr>is_terminated = it, termination_reason = tr,
      account1 = acc1, account2 = acc2, stdout = out\<rparr>"
    by (cases g) auto
  obtain x1 y1 n1 m1 i1 where a1: "acc1 = \<lparr>balance = x1, transfer_amount = y1,
      successful_transfers = n1, mutex = m1, acct_id = i1\<rparr>"
    by (cases acc1) auto
  obtain x2 y2 n2 m2 i2 where a2: "acc2 = \<lparr>balance = x2, transfer_amount = y2,
      successful_transfers = n2, mutex = m2, acct_id = i2\<rparr>"
    by (cases acc2) auto
  from assms g a1 a2 have "m1 = None" "m2 = None" by simp_all
  with g a1 a2 that show ?thesis by blast
qed

lemma solo_numeral:
  "solo (numeral k) t p period g =
     (case worker t p period g of
        None \<Rightarrow> None
      | Some (p', g', es, ws) \<Rightarrow> solo (pred_numeral k) t p' period g')"
  by (simp add: numeral_eq_Suc)

lemma solo_is_transfer_funds:
  fixes g :: "('a::{ord,plus,minus}) globals"
  assumes "mutex (account1 g) = None" "mutex (account2 g) = None"
  shows "solo (if is_terminated g \<noteq> 0 then 5
               else if balance (deref (source_of t) g) < transfer_amount (deref (source_of t) g)
               then 8 else 10) t Lock_first period g =
         map_option (\<lambda>(r, g'). (Returned r, g'))
           (transfer_funds t (source_of t) (dest_of t) g)"
proof -
  from assms obtain it tr x1 y1 n1 i1 x2 y2 n2 i2 out where
    g: "g = \<lparr>is_terminated = it, termination_reason = tr,
          account1 = \<lparr>balance = x1, transfer_amount = y1, successful_transfers = n1,
                      mutex = None, acct_id = i1\<rparr>,
          account2 = \<lparr>balance = x2, transfer_amount = y2, successful_transfers = n2,
                      mutex = None, acct_id = i2\<rparr>,
          stdout = out\<rparr>"
    by (rule globals_shape)
  have "solo (if is_terminated g \<noteq> 0 then 5
               else if balance (deref (source_of t) g) < transfer_amount (deref (source_of t) g)
               then 8 else 10) t Lock_first period g =
         map_option (\<lambda>(r, g'). (Returned r, g'))
     (Some (if is_terminated g \<noteq> 0 then (- 1, g)
      else if balance (deref (source_of t) g) < transfer_amount (deref (source_of t) g) then
        (- 1, g\<lparr>termination_reason :=
                   snprintf 100 ''Insufficient funds in Account %d'' (acct_id (deref (source_of t) g)),
                is_terminated := 1\<rparr>)
      else (0, (store (dest_of t) ((deref (dest_of t) g)
                   \<lparr>balance := balance (deref (dest_of t) g) + transfer_amount (deref (source_of t) g)\<rparr>)
                (store (source_of t) ((deref (source_of t) g)
                   \<lparr>balance := balance (deref (source_of t) g) - transfer_amount (deref (source_of t) g),
                    successful_transfers := successful_transfers (deref (source_of t) g) + 1\<rparr>) g))
              \<lparr>stdout := stdout g @
                 [SUCCESS (acct_id (deref (source_of t) g)) (acct_id (deref (dest_of t) g))
                    (transfer_amount (deref (source_of t) g))
                    (acct_id (deref (source_of t) g))
                    (balance (deref (source_of t) g) - transfer_amount (deref (source_of t) g))]\<rparr>)))"
    unfolding g
    by (cases t)
       (simp_all add: solo_numeral Let_def lock_order_cases
          pthread_mutex_lock.simps pthread_mutex_unlock.simps store.simps)
  then show ?thesis
    by (simp only: transfer_funds_free [OF source_dest_distinct assms])
qed

end
